theory Spec2Isabelle
  imports Main "HOL-Library.Word" "HOL-Library.Multiset"
begin

section \<open>The thread pool of \<^verbatim>\<open>pool/threadpool.h\<close> as an interleaving transition system\<close>

text \<open>
  The class \<^verbatim>\<open>ThreadPool\<close> owns a \<^verbatim>\<open>std::shared_ptr<Pool>\<close> to the shared structure
  \<^verbatim>\<open>Pool { mtx; cond; isClosed; tasks }\<close>. Its constructor starts \<^verbatim>\<open>threadCount\<close>
  detached threads which all run the same loop; \<^verbatim>\<open>AddTask\<close> and the destructor run in
  the thread that owns the handle. The model below is an interleaving semantics: the
  system state holds the fields of \<^verbatim>\<open>Pool\<close>, the control block of the shared pointer,
  one program counter for every worker thread and one for the owning (client) thread.
  A scheduler picks, at each step, the thread that moves; one step is one statement of
  the source (or a run of statements executed under the mutex, which no other thread
  can observe).

  The handle objects are used by one thread, one operation at a time, as the server
  does (an \<^verbatim>\<open>AddTask\<close> that runs while the destructor of the same object runs has no
  defined behaviour).

  A task is a \<^verbatim>\<open>std::function<void()>\<close>. The pool never looks inside it, so a task is
  an identity together with what its call does: it returns, or it throws. A call that
  takes long is a worker that the scheduler leaves at its call for as long.
\<close>

datatype task = Task (tid: nat) (throws: bool)

text \<open>Who holds \<^verbatim>\<open>Pool::mtx\<close>.\<close>

datatype owner = Client | Worker nat

text \<open>
  A \<^verbatim>\<open>ThreadPool\<close> object: its member \<^verbatim>\<open>pool_\<close> is null (default constructed or moved
  from), or refers to the shared \<^verbatim>\<open>Pool\<close>; \<open>Gone\<close> is an object whose destructor has
  finished.
\<close>

datatype hnd = Null | Ref | Gone

text \<open>
  What ends the process: \<^verbatim>\<open>assert\<close> failing, an exception leaving the function of a
  \<^verbatim>\<open>std::thread\<close> (the runtime calls \<^verbatim>\<open>std::terminate\<close>), the dereference of a null
  \<^verbatim>\<open>pool_\<close>, an access to a \<^verbatim>\<open>Pool\<close> that has been deleted, the return of \<^verbatim>\<open>main\<close>.
\<close>

datatype fault = AssertionFailed | Terminated | NullDeref | UseAfterFree | Exited

text \<open>
  The program counter of a worker thread, by the lines of the lambda in the constructor:
  \<^item> \<open>WLock\<close>: before \<^verbatim>\<open>std::unique_lock<std::mutex> locker(pool->mtx)\<close>;
  \<^item> \<open>WTop\<close>: at the head of \<^verbatim>\<open>while(true)\<close>, mutex held;
  \<^item> \<open>WPopped t\<close>: after \<^verbatim>\<open>tasks.pop()\<close>, before \<^verbatim>\<open>locker.unlock()\<close>, mutex held;
  \<^item> \<open>WRun t\<close>: before the call \<^verbatim>\<open>task()\<close> returns;
  \<^item> \<open>WRelock\<close>: before \<^verbatim>\<open>locker.lock()\<close> (the local \<^verbatim>\<open>task\<close> object is destroyed
    at the end of the block, right after the lock is taken: that is part of the same step);
  \<^item> \<open>WWait\<close>: blocked inside \<^verbatim>\<open>pool->cond.wait(locker)\<close>, mutex released;
  \<^item> \<open>WWoken\<close>: unblocked inside \<^verbatim>\<open>wait\<close>, before it has the mutex again;
  \<^item> \<open>WDone\<close>: after \<^verbatim>\<open>break\<close>; the thread has ended.
\<close>

datatype wpc = WLock | WTop | WPopped task | WRun task | WRelock | WWait | WWoken | WDone

text \<open>The operations the client thread can start on the handle objects.\<close>

datatype op = Default | Move nat | AddTask nat task | Destroy nat

text \<open>
  The program counter of the client thread. \<open>CCtor i\<close> is the loop of the constructor
  with loop variable \<open>i\<close>; the \<open>CAdd\<close> states are the statements of \<^verbatim>\<open>AddTask\<close>, the
  \<open>CDtor\<close> states those of the destructor, each for the handle of the given index:
  \<^item> \<open>CAddWant\<close>: before \<^verbatim>\<open>std::lock_guard<std::mutex> locker(pool_->mtx)\<close>;
  \<^item> \<open>CAddLocked\<close>: mutex held, before \<^verbatim>\<open>pool_->tasks.emplace(...)\<close>;
  \<^item> \<open>CAddPushed\<close>: mutex held, before the guard goes out of scope;
  \<^item> \<open>CAddNotify\<close>: before \<^verbatim>\<open>pool_->cond.notify_one()\<close>;
  \<^item> \<open>CDtorTest\<close>: before \<^verbatim>\<open>if(static_cast<bool>(pool_))\<close>;
  \<^item> \<open>CDtorWant\<close>: before the \<^verbatim>\<open>std::lock_guard\<close> of the destructor;
  \<^item> \<open>CDtorLocked\<close>: mutex held, before \<^verbatim>\<open>pool_->isClosed = true\<close>;
  \<^item> \<open>CDtorSet\<close>: mutex held, before the guard goes out of scope;
  \<^item> \<open>CDtorNotify\<close>: before \<^verbatim>\<open>pool_->cond.notify_all()\<close>;
  \<^item> \<open>CDtorEnd\<close>: after the body, before the member \<^verbatim>\<open>pool_\<close> is destroyed.
\<close>

datatype cpc =
    CCtor "64 word"
  | CIdle
  | CAddWant nat task
  | CAddLocked nat task
  | CAddPushed nat
  | CAddNotify nat
  | CDtorTest nat
  | CDtorWant nat
  | CDtorLocked nat
  | CDtorSet nat
  | CDtorNotify nat
  | CDtorEnd nat

text \<open>
  The state. \<open>mtx\<close>, \<open>isClosed\<close> and \<open>tasks\<close> are the fields of \<^verbatim>\<open>Pool\<close> (the front of
  the queue is the head of the list); the threads blocked on \<^verbatim>\<open>cond\<close> are the workers
  at \<open>WWait\<close>. \<open>refs\<close> is the use count of the shared pointer and \<open>freed\<close> says that the
  \<^verbatim>\<open>Pool\<close> has been deleted. \<open>nthreads\<close> is the constructor's parameter
  \<^verbatim>\<open>threadCount\<close>. The other fields are history variables, which the source does
  not have: \<open>ctor_failed\<close> says that the constructor was left by an exception, and the
  last three fields are the tasks in the order they entered the queue, in the order they
  left it, and in the order their calls returned.
\<close>

record sys =
  mtx :: "owner option"
  isClosed :: bool
  tasks :: "task list"
  refs :: nat
  freed :: bool
  workers :: "wpc list"
  cpc :: cpc
  nthreads :: "64 word"
  handles :: "hnd list"
  fault :: "fault option"
  ctor_failed :: bool
  submitted :: "task list"
  dequeued :: "task list"
  executed :: "task list"

subsection \<open>The constructors\<close>

text \<open>
  \<^verbatim>\<open>explicit ThreadPool(size_t threadCount = 8): pool_(std::make_shared<Pool>())\<close>:
  the member initialiser creates the \<^verbatim>\<open>Pool\<close> (value-initialised, so \<^verbatim>\<open>isClosed\<close> is
  false and the queue empty) with use count 1, then \<^verbatim>\<open>assert(threadCount > 0)\<close> runs,
  then the loop starts at \<open>i = 0\<close>; \<open>start\<close> is the state at that point. The argument
  is \<open>None\<close> when the caller gives none. The defaulted constructor
  \<^verbatim>\<open>ThreadPool() = default\<close> and the move constructor are the operations \<open>Default\<close>
  and \<open>Move\<close> of the client below.
\<close>

definition start :: "64 word \<Rightarrow> sys" where
  "start threadCount =
     \<lparr> mtx = None, isClosed = False, tasks = [], refs = 1, freed = False,
       workers = [], cpc = CCtor 0, nthreads = threadCount, handles = [Ref],
       fault = None, ctor_failed = False, submitted = [], dequeued = [], executed = [] \<rparr>"

definition ThreadPool_ctor :: "64 word option \<Rightarrow> fault + sys" where
  "ThreadPool_ctor arg =
     (let threadCount = (case arg of None \<Rightarrow> 8 | Some n \<Rightarrow> n) in
      if threadCount > 0 then Inr (start threadCount) else Inl AssertionFailed)"

subsection \<open>The shared pointer\<close>

text \<open>Dropping one owner of the \<^verbatim>\<open>Pool\<close>: the last one deletes it.\<close>

definition release :: "sys \<Rightarrow> sys" where
  "release s = s\<lparr> refs := refs s - 1, freed := (refs s - 1 = 0) \<rparr>"

subsection \<open>The steps of the client thread\<close>

text \<open>The client starts an operation only when it is executing none.\<close>

definition call_step :: "op \<Rightarrow> sys \<Rightarrow> sys option" where
  "call_step c s =
     (if cpc s \<noteq> CIdle then None
      else case c of
        Default \<Rightarrow> Some (s\<lparr> handles := handles s @ [Null] \<rparr>)
      | Move j \<Rightarrow>
          if j < length (handles s) \<and> handles s ! j \<noteq> Gone
          then Some (s\<lparr> handles := (handles s)[j := Null] @ [handles s ! j] \<rparr>)
          else None
      | AddTask j t \<Rightarrow>
          if j < length (handles s) \<and> handles s ! j \<noteq> Gone
          then Some (s\<lparr> cpc := CAddWant j t \<rparr>)
          else None
      | Destroy j \<Rightarrow>
          if j < length (handles s) \<and> handles s ! j \<noteq> Gone
          then Some (s\<lparr> cpc := CDtorTest j \<rparr>)
          else None)"

text \<open>The client states in which the next statement reads or writes the \<^verbatim>\<open>Pool\<close>.\<close>

fun uses_pool :: "cpc \<Rightarrow> bool" where
  "uses_pool (CAddLocked j t) = True"
| "uses_pool (CAddPushed j) = True"
| "uses_pool (CAddNotify j) = True"
| "uses_pool (CDtorWant j) = True"
| "uses_pool (CDtorLocked j) = True"
| "uses_pool (CDtorSet j) = True"
| "uses_pool (CDtorNotify j) = True"
| "uses_pool _ = False"

text \<open>\<^verbatim>\<open>cond.notify_all()\<close> unblocks every thread that waits on the condition variable.\<close>

definition notify_all :: "wpc list \<Rightarrow> wpc list" where
  "notify_all ws = map (\<lambda>p. if p = WWait then WWoken else p) ws"

text \<open>
  One statement of the operation in progress. A \<^verbatim>\<open>std::lock_guard\<close> is taken only when
  the mutex is free (\<open>None\<close>: the thread is blocked). \<^verbatim>\<open>notify_one\<close> with nobody
  waiting does nothing; with somebody waiting it is the step \<open>notify_step\<close> below. In
  the constructor's loop this is the iteration in which the thread is started; the
  iteration in which the system refuses the thread is \<open>thread_fail_step\<close> below.
\<close>

definition client_step :: "sys \<Rightarrow> sys option" where
  "client_step s =
     (if uses_pool (cpc s) \<and> freed s then Some (s\<lparr> fault := Some UseAfterFree \<rparr>)
      else case cpc s of
        CCtor i \<Rightarrow>
          if i < nthreads s
          then Some (s\<lparr> workers := workers s @ [WLock], refs := refs s + 1,
                        cpc := CCtor (i + 1) \<rparr>)
          else Some (s\<lparr> cpc := CIdle \<rparr>)
      | CIdle \<Rightarrow> None
      | CAddWant j t \<Rightarrow>
          if handles s ! j \<noteq> Ref then Some (s\<lparr> fault := Some NullDeref \<rparr>)
          else if freed s then Some (s\<lparr> fault := Some UseAfterFree \<rparr>)
          else if mtx s = None then Some (s\<lparr> mtx := Some Client, cpc := CAddLocked j t \<rparr>)
          else None
      | CAddLocked j t \<Rightarrow>
          Some (s\<lparr> tasks := tasks s @ [t], submitted := submitted s @ [t],
                   cpc := CAddPushed j \<rparr>)
      | CAddPushed j \<Rightarrow> Some (s\<lparr> mtx := None, cpc := CAddNotify j \<rparr>)
      | CAddNotify j \<Rightarrow>
          if WWait \<in> set (workers s) then None else Some (s\<lparr> cpc := CIdle \<rparr>)
      | CDtorTest j \<Rightarrow>
          Some (s\<lparr> cpc := (if handles s ! j = Ref then CDtorWant j else CDtorEnd j) \<rparr>)
      | CDtorWant j \<Rightarrow>
          if mtx s = None then Some (s\<lparr> mtx := Some Client, cpc := CDtorLocked j \<rparr>)
          else None
      | CDtorLocked j \<Rightarrow> Some (s\<lparr> isClosed := True, cpc := CDtorSet j \<rparr>)
      | CDtorSet j \<Rightarrow> Some (s\<lparr> mtx := None, cpc := CDtorNotify j \<rparr>)
      | CDtorNotify j \<Rightarrow>
          Some (s\<lparr> workers := notify_all (workers s), cpc := CDtorEnd j \<rparr>)
      | CDtorEnd j \<Rightarrow>
          Some ((if handles s ! j = Ref then release s else s)
                  \<lparr> handles := (handles s)[j := Gone], cpc := CIdle \<rparr>))"

text \<open>
  \<^verbatim>\<open>pool_->cond.notify_one()\<close> when some worker waits: it unblocks one of the waiting
  threads, here the worker \<open>k\<close> that the scheduler names.
\<close>

definition notify_step :: "nat \<Rightarrow> sys \<Rightarrow> sys option" where
  "notify_step k s =
     (case cpc s of
        CAddNotify j \<Rightarrow>
          if freed s then Some (s\<lparr> fault := Some UseAfterFree \<rparr>)
          else if k < length (workers s) \<and> workers s ! k = WWait
          then Some (s\<lparr> workers := (workers s)[k := WWoken], cpc := CIdle \<rparr>)
          else None
      | _ \<Rightarrow> None)"

text \<open>
  The constructor of \<^verbatim>\<open>std::thread\<close> throws \<^verbatim>\<open>std::system_error\<close> when the system cannot
  start a thread. Nothing in the constructor of \<^verbatim>\<open>ThreadPool\<close> catches it: the
  constructor is left, its member \<^verbatim>\<open>pool_\<close>, already constructed, is destroyed (one
  owner of the \<^verbatim>\<open>Pool\<close> is dropped), the body of the destructor does not run, and the
  object (the handle of index 0) never comes to exist. The threads started before go on.
\<close>

definition thread_fail_step :: "sys \<Rightarrow> sys option" where
  "thread_fail_step s =
     (case cpc s of
        CCtor i \<Rightarrow>
          if i < nthreads s
          then Some (release (s\<lparr> handles := (handles s)[0 := Gone], cpc := CIdle,
                                 ctor_failed := True \<rparr>))
          else None
      | _ \<Rightarrow> None)"

text \<open>
  The worker threads are detached: nothing joins them. When the client thread returns
  from \<^verbatim>\<open>main\<close>, which it can do whenever it is between two operations on the handles,
  the process ends and every thread ends with it, wherever it is in its loop.
\<close>

definition process_exit :: "sys \<Rightarrow> sys option" where
  "process_exit s = (if cpc s = CIdle then Some (s\<lparr> fault := Some Exited \<rparr>) else None)"

subsection \<open>The steps of a worker thread\<close>

text \<open>
  The loop of the lambda. At \<open>WTop\<close> the three branches of the source are tried in its
  order: the queue is not empty (take the front task and pop it), else the pool is
  closed (\<^verbatim>\<open>break\<close>: the lock is released when \<^verbatim>\<open>locker\<close> goes out of scope, then the
  closure dies and drops its copy of the shared pointer), else wait. A task that
  throws is caught nowhere in the lambda.
\<close>

definition worker_step :: "nat \<Rightarrow> sys \<Rightarrow> sys option" where
  "worker_step i s =
     (if \<not> i < length (workers s) then None
      else case workers s ! i of
        WLock \<Rightarrow>
          if freed s then Some (s\<lparr> fault := Some UseAfterFree \<rparr>)
          else if mtx s = None
          then Some (s\<lparr> mtx := Some (Worker i), workers := (workers s)[i := WTop] \<rparr>)
          else None
      | WTop \<Rightarrow>
          if freed s then Some (s\<lparr> fault := Some UseAfterFree \<rparr>)
          else (case tasks s of
                  t # q \<Rightarrow>
                    Some (s\<lparr> tasks := q, dequeued := dequeued s @ [t],
                             workers := (workers s)[i := WPopped t] \<rparr>)
                | [] \<Rightarrow>
                    if isClosed s
                    then Some (release (s\<lparr> mtx := None, workers := (workers s)[i := WDone] \<rparr>))
                    else Some (s\<lparr> mtx := None, workers := (workers s)[i := WWait] \<rparr>))
      | WPopped t \<Rightarrow>
          if freed s then Some (s\<lparr> fault := Some UseAfterFree \<rparr>)
          else Some (s\<lparr> mtx := None, workers := (workers s)[i := WRun t] \<rparr>)
      | WRun t \<Rightarrow>
          if throws t then Some (s\<lparr> fault := Some Terminated \<rparr>)
          else Some (s\<lparr> executed := executed s @ [t], workers := (workers s)[i := WRelock] \<rparr>)
      | WRelock \<Rightarrow>
          if freed s then Some (s\<lparr> fault := Some UseAfterFree \<rparr>)
          else if mtx s = None
          then Some (s\<lparr> mtx := Some (Worker i), workers := (workers s)[i := WTop] \<rparr>)
          else None
      | WWait \<Rightarrow> None
      | WWoken \<Rightarrow>
          if freed s then Some (s\<lparr> fault := Some UseAfterFree \<rparr>)
          else if mtx s = None
          then Some (s\<lparr> mtx := Some (Worker i), workers := (workers s)[i := WTop] \<rparr>)
          else None
      | WDone \<Rightarrow> None)"

text \<open>A wait on a condition variable may end without any notification.\<close>

definition spurious_step :: "nat \<Rightarrow> sys \<Rightarrow> sys option" where
  "spurious_step i s =
     (if i < length (workers s) \<and> workers s ! i = WWait
      then Some (s\<lparr> workers := (workers s)[i := WWoken] \<rparr>)
      else None)"

subsection \<open>Executions\<close>

datatype action =
  ACall op | AClient | ANotify nat | AThreadFail | AExit | AWorker nat | ASpurious nat

text \<open>Once the process has ended, nothing moves.\<close>

definition step :: "action \<Rightarrow> sys \<Rightarrow> sys option" where
  "step a s =
     (if fault s \<noteq> None then None
      else case a of
        ACall c \<Rightarrow> call_step c s
      | AClient \<Rightarrow> client_step s
      | ANotify k \<Rightarrow> notify_step k s
      | AThreadFail \<Rightarrow> thread_fail_step s
      | AExit \<Rightarrow> process_exit s
      | AWorker i \<Rightarrow> worker_step i s
      | ASpurious i \<Rightarrow> spurious_step i s)"

fun run :: "action list \<Rightarrow> sys \<Rightarrow> sys option" where
  "run [] s = Some s"
| "run (a # as) s = (case step a s of None \<Rightarrow> None | Some s' \<Rightarrow> run as s')"

text \<open>The states of the executions of a pool constructed with \<open>threadCount = n\<close>.\<close>

definition reachable :: "64 word \<Rightarrow> sys \<Rightarrow> bool" where
  "reachable n s \<longleftrightarrow> (\<exists>s0 as. ThreadPool_ctor (Some n) = Inr s0 \<and> run as s0 = Some s)"

section \<open>Notions used in the proofs\<close>

text \<open>
  The program counters at which a thread holds the mutex, and the invariant that ties
  them to the field \<open>mtx\<close>.
\<close>

fun holds :: "wpc \<Rightarrow> bool" where
  "holds WTop = True" | "holds (WPopped t) = True" | "holds _ = False"

fun client_holds :: "cpc \<Rightarrow> bool" where
  "client_holds (CAddLocked j t) = True"
| "client_holds (CAddPushed j) = True"
| "client_holds (CDtorLocked j) = True"
| "client_holds (CDtorSet j) = True"
| "client_holds _ = False"

definition lock_ok :: "sys \<Rightarrow> bool" where
  "lock_ok s \<longleftrightarrow>
     (\<forall>i < length (workers s). holds (workers s ! i) \<longleftrightarrow> mtx s = Some (Worker i)) \<and>
     (client_holds (cpc s) \<longleftrightarrow> mtx s = Some Client) \<and>
     (\<forall>i. mtx s = Some (Worker i) \<longrightarrow> i < length (workers s))"

text \<open>
  The handle an operation in progress works on. At most one handle refers to the
  \<^verbatim>\<open>Pool\<close> (the class has a move constructor and no copy constructor), and the
  statements behind the dereference of \<^verbatim>\<open>pool_\<close> are reached with that handle only.
\<close>

fun cpc_handle :: "cpc \<Rightarrow> nat option" where
  "cpc_handle (CCtor i) = None"
| "cpc_handle CIdle = None"
| "cpc_handle (CAddWant j t) = Some j"
| "cpc_handle (CAddLocked j t) = Some j"
| "cpc_handle (CAddPushed j) = Some j"
| "cpc_handle (CAddNotify j) = Some j"
| "cpc_handle (CDtorTest j) = Some j"
| "cpc_handle (CDtorWant j) = Some j"
| "cpc_handle (CDtorLocked j) = Some j"
| "cpc_handle (CDtorSet j) = Some j"
| "cpc_handle (CDtorNotify j) = Some j"
| "cpc_handle (CDtorEnd j) = Some j"

definition handles_ok :: "sys \<Rightarrow> bool" where
  "handles_ok s \<longleftrightarrow>
     count_list (handles s) Ref \<le> 1 \<and>
     (\<forall>j. cpc_handle (cpc s) = Some j \<longrightarrow>
        j < length (handles s) \<and> handles s ! j \<noteq> Gone \<and>
        (uses_pool (cpc s) \<longrightarrow> handles s ! j = Ref)) \<and>
     (\<forall>i. cpc s = CCtor i \<longrightarrow> handles s = [Ref])"

text \<open>The number of worker threads that have not ended: each owns one reference.\<close>

definition live :: "wpc list \<Rightarrow> nat" where
  "live ws = length (filter (\<lambda>p. p \<noteq> WDone) ws)"

definition ref_ok :: "sys \<Rightarrow> bool" where
  "ref_ok s \<longleftrightarrow>
     refs s = count_list (handles s) Ref + live (workers s) \<and> (freed s \<longleftrightarrow> refs s = 0)"

text \<open>No execution touches a deleted \<^verbatim>\<open>Pool\<close>.\<close>

definition fault_ok :: "sys \<Rightarrow> bool" where
  "fault_ok s \<longleftrightarrow> fault s \<noteq> Some UseAfterFree \<and> fault s \<noteq> Some AssertionFailed"

text \<open>
  The client states of the destructor from the assignment \<^verbatim>\<open>isClosed = true\<close> on, and
  those among them that come before \<^verbatim>\<open>notify_all\<close> has run.
\<close>

fun closing :: "cpc \<Rightarrow> bool" where
  "closing (CDtorSet j) = True"
| "closing (CDtorNotify j) = True"
| "closing (CDtorEnd j) = True"
| "closing _ = False"

fun unnotified :: "cpc \<Rightarrow> bool" where
  "unnotified (CDtorSet j) = True"
| "unnotified (CDtorNotify j) = True"
| "unnotified _ = False"

definition closed_ok :: "sys \<Rightarrow> bool" where
  "closed_ok s \<longleftrightarrow>
     (\<not> isClosed s \<longrightarrow> WDone \<notin> set (workers s)) \<and>
     (isClosed s \<longrightarrow> Ref \<in> set (handles s) \<longrightarrow>
        closing (cpc s) \<and> (\<forall>j. cpc_handle (cpc s) = Some j \<longrightarrow> handles s ! j = Ref)) \<and>
     (isClosed s \<longrightarrow> \<not> unnotified (cpc s) \<longrightarrow> WWait \<notin> set (workers s)) \<and>
     (WDone \<in> set (workers s) \<longrightarrow> tasks s = [])"

text \<open>The tasks in flight: taken off the queue by a worker whose call has not returned.\<close>

fun pc_task :: "wpc \<Rightarrow> task list" where
  "pc_task (WPopped t) = [t]"
| "pc_task (WRun t) = [t]"
| "pc_task _ = []"

definition flying :: "wpc list \<Rightarrow> task multiset" where
  "flying ws = mset (concat (map pc_task ws))"

definition logs_ok :: "sys \<Rightarrow> bool" where
  "logs_ok s \<longleftrightarrow>
     submitted s = dequeued s @ tasks s \<and>
     mset (dequeued s) = mset (executed s) + flying (workers s)"

text \<open>
  The loop invariant of the constructor: \<open>i\<close> threads have been started. A constructor
  that was left by an exception has started fewer threads than \<open>threadCount\<close>.
\<close>

definition ctor_ok :: "64 word \<Rightarrow> sys \<Rightarrow> bool" where
  "ctor_ok n s \<longleftrightarrow>
     nthreads s = n \<and>
     (\<forall>i. cpc s = CCtor i \<longrightarrow>
        length (workers s) = unat i \<and> i \<le> n \<and> \<not> ctor_failed s) \<and>
     ((\<forall>i. cpc s \<noteq> CCtor i) \<and> \<not> ctor_failed s \<longrightarrow> length (workers s) = unat n) \<and>
     (ctor_failed s \<longrightarrow> (\<forall>i. cpc s \<noteq> CCtor i) \<and> length (workers s) < unat n)"

text \<open>A pool whose constructor failed has no handle and is never closed.\<close>

definition abandon_ok :: "sys \<Rightarrow> bool" where
  "abandon_ok s \<longleftrightarrow> (ctor_failed s \<longrightarrow> Ref \<notin> set (handles s) \<and> \<not> isClosed s)"

text \<open>
  Schedules used as concrete executions. \<open>sched_ctor\<close> runs the constructor for two
  threads. In \<open>sched_run\<close> worker 0 then waits, task 7 is submitted and worker 0 takes
  it and starts the call. \<open>sched_shutdown\<close> goes on with the destructor of the handle,
  after which worker 1 finds the queue empty and the pool closed. \<open>sched_done\<close> lets
  worker 0 finish as well. In \<open>sched_throw\<close> the task taken by worker 0 throws and a
  second task is queued behind it. \<open>sched_busy\<close> submits task 8 while worker 0 runs
  task 7 and worker 1 has not started. \<open>sched_moved\<close> moves from the handle and default
  constructs another one. In \<open>sched_fail\<close> the second thread of the constructor cannot
  be started. In \<open>sched_blocked\<close> worker 0 holds the mutex at the head of its loop when
  \<^verbatim>\<open>AddTask\<close> is called. In \<open>sched_null\<close> \<^verbatim>\<open>AddTask\<close> is called on the moved-from
  handle. \<open>sched_throw_closed\<close> runs the destructor after \<open>sched_throw\<close>. In
  \<open>sched_quit\<close> a task is submitted before any worker has started, the destructor runs
  and \<^verbatim>\<open>main\<close> returns.
\<close>

definition sched_ctor :: "action list" where
  "sched_ctor = [AClient, AClient, AClient]"

definition sched_run :: "action list" where
  "sched_run = sched_ctor @
     [AWorker 0, AWorker 0,
      ACall (AddTask 0 (Task 7 False)), AClient, AClient, AClient, ANotify 0,
      AWorker 0, AWorker 0, AWorker 0]"

definition sched_shutdown :: "action list" where
  "sched_shutdown = sched_run @
     [ACall (Destroy 0), AClient, AClient, AClient, AClient, AClient, AClient,
      AWorker 1, AWorker 1]"

definition sched_done :: "action list" where
  "sched_done = sched_shutdown @ [AWorker 0, AWorker 0, AWorker 0]"

definition sched_throw :: "action list" where
  "sched_throw = sched_ctor @
     [AWorker 0, AWorker 0,
      ACall (AddTask 0 (Task 1 True)), AClient, AClient, AClient, ANotify 0,
      ACall (AddTask 0 (Task 2 False)), AClient, AClient, AClient, AClient,
      AWorker 0, AWorker 0, AWorker 0]"

definition sched_busy :: "action list" where
  "sched_busy = sched_run @ [ACall (AddTask 0 (Task 8 False)), AClient, AClient, AClient]"

definition sched_moved :: "action list" where
  "sched_moved = sched_ctor @ [ACall (Move 0), ACall Default]"

definition sched_fail :: "action list" where
  "sched_fail = [AClient, AThreadFail]"

definition sched_blocked :: "action list" where
  "sched_blocked = sched_ctor @ [AWorker 0, ACall (AddTask 0 (Task 7 False))]"

definition sched_null :: "action list" where
  "sched_null = sched_moved @ [ACall (AddTask 0 (Task 7 False))]"

definition sched_throw_closed :: "action list" where
  "sched_throw_closed = sched_throw @
     [ACall (Destroy 0), AClient, AClient, AClient, AClient, AClient, AClient]"

definition sched_quit :: "action list" where
  "sched_quit = sched_ctor @
     [ACall (AddTask 0 (Task 7 False)), AClient, AClient, AClient, AClient,
      ACall (Destroy 0), AClient, AClient, AClient, AClient, AClient, AClient, AExit]"

text \<open>\<open>sched_notify\<close>: worker 0 waits and \<^verbatim>\<open>AddTask\<close> has reached \<^verbatim>\<open>notify_one\<close>.\<close>

definition sched_notify :: "action list" where
  "sched_notify = sched_ctor @
     [AWorker 0, AWorker 0, ACall (AddTask 0 (Task 7 False)), AClient, AClient, AClient]"

text \<open>
  A measure of the work left to the workers once the pool is closed: every step of a
  worker makes it smaller.
\<close>

fun weight :: "wpc \<Rightarrow> nat" where
  "weight WDone = 0"
| "weight WTop = 1"
| "weight WLock = 2"
| "weight WRelock = 2"
| "weight WWoken = 2"
| "weight (WRun t) = 3"
| "weight WWait = 3"
| "weight (WPopped t) = 4"

definition drain_measure :: "sys \<Rightarrow> nat" where
  "drain_measure s = 4 * length (tasks s) + sum_list (map weight (workers s))"



text \<open>The steps of the worker threads in a schedule.\<close>

fun worker_action :: "action \<Rightarrow> bool" where
  "worker_action (AWorker k) = True"
| "worker_action _ = False"


section \<open>Executions and case analysis of the steps\<close>

lemma ctor_start: "ThreadPool_ctor (Some n) = Inr s0 \<longleftrightarrow> 0 < n \<and> s0 = start n"
  by (auto simp: ThreadPool_ctor_def)

lemma run_snoc: "run (as @ [a]) s = (case run as s of None \<Rightarrow> None | Some s' \<Rightarrow> step a s')"
  by (induction as arbitrary: s) (auto split: option.splits)

lemma reachable_start: "0 < n \<Longrightarrow> reachable n (start n)"
  unfolding reachable_def ctor_start by (rule exI[of _ "start n"], rule exI[of _ "[]"]) simp

lemma reachable_step: "reachable n s \<Longrightarrow> step a s = Some s' \<Longrightarrow> reachable n s'"
  unfolding reachable_def
  apply (elim exE conjE)
  subgoal for s0 as
    by (rule exI[of _ s0], rule exI[of _ "as @ [a]"]) (simp add: run_snoc)
  done

lemma reachable_induct [consumes 1, case_names start step]:
  assumes "reachable n s"
    and "0 < n \<Longrightarrow> P (start n)"
    and "\<And>s a s'. reachable n s \<Longrightarrow> P s \<Longrightarrow> step a s = Some s' \<Longrightarrow> P s'"
  shows "P s"
proof -
  from assms(1) obtain as where n: "0 < n" and r: "run as (start n) = Some s"
    unfolding reachable_def ctor_start by auto
  from r show ?thesis
  proof (induction as arbitrary: s rule: rev_induct)
    case Nil
    then show ?case using assms(2) n by simp
  next
    case (snoc a as)
    then obtain s1 where s1: "run as (start n) = Some s1" "step a s1 = Some s"
      by (auto simp: run_snoc split: option.splits)
    have "reachable n s1" unfolding reachable_def ctor_start using n s1(1) by blast
    then show ?case using snoc.IH[OF s1(1)] s1(2) assms(3) by blast
  qed
qed

lemma worker_step_cases [consumes 1, case_names uaf lock pop exit wait unlock ret throw relock woken]:
  assumes "worker_step i s = Some s'"
  obtains
    "i < length (workers s)" "workers s ! i \<noteq> WDone" "freed s"
      "s' = s\<lparr> fault := Some UseAfterFree \<rparr>"
  | "i < length (workers s)" "workers s ! i = WLock" "\<not> freed s" "mtx s = None"
      "s' = s\<lparr> mtx := Some (Worker i), workers := (workers s)[i := WTop] \<rparr>"
  | t q where "i < length (workers s)" "workers s ! i = WTop" "\<not> freed s" "tasks s = t # q"
      "s' = s\<lparr> tasks := q, dequeued := dequeued s @ [t], workers := (workers s)[i := WPopped t] \<rparr>"
  | "i < length (workers s)" "workers s ! i = WTop" "\<not> freed s" "tasks s = []" "isClosed s"
      "s' = release (s\<lparr> mtx := None, workers := (workers s)[i := WDone] \<rparr>)"
  | "i < length (workers s)" "workers s ! i = WTop" "\<not> freed s" "tasks s = []" "\<not> isClosed s"
      "s' = s\<lparr> mtx := None, workers := (workers s)[i := WWait] \<rparr>"
  | t where "i < length (workers s)" "workers s ! i = WPopped t" "\<not> freed s"
      "s' = s\<lparr> mtx := None, workers := (workers s)[i := WRun t] \<rparr>"
  | t where "i < length (workers s)" "workers s ! i = WRun t" "\<not> throws t"
      "s' = s\<lparr> executed := executed s @ [t], workers := (workers s)[i := WRelock] \<rparr>"
  | t where "i < length (workers s)" "workers s ! i = WRun t" "throws t"
      "s' = s\<lparr> fault := Some Terminated \<rparr>"
  | "i < length (workers s)" "workers s ! i = WRelock" "\<not> freed s" "mtx s = None"
      "s' = s\<lparr> mtx := Some (Worker i), workers := (workers s)[i := WTop] \<rparr>"
  | "i < length (workers s)" "workers s ! i = WWoken" "\<not> freed s" "mtx s = None"
      "s' = s\<lparr> mtx := Some (Worker i), workers := (workers s)[i := WTop] \<rparr>"
proof -
  have i: "i < length (workers s)"
    using assms unfolding worker_step_def by (simp split: if_splits)
  show ?thesis
  proof (cases "workers s ! i")
    case WLock
    then show ?thesis using assms i that(1,2) unfolding worker_step_def
      by (simp split: if_splits)
  next
    case WTop
    then show ?thesis using assms i that(1,3,4,5) unfolding worker_step_def
      by (cases "tasks s") (simp_all split: if_splits)
  next
    case (WPopped t)
    then show ?thesis using assms i that(1,6) unfolding worker_step_def
      by (simp split: if_splits)
  next
    case (WRun t)
    then show ?thesis using assms i that(7,8) unfolding worker_step_def
      by (simp split: if_splits)
  next
    case WRelock
    then show ?thesis using assms i that(1,9) unfolding worker_step_def
      by (simp split: if_splits)
  next
    case WWait
    then show ?thesis using assms i unfolding worker_step_def by simp
  next
    case WWoken
    then show ?thesis using assms i that(1,10) unfolding worker_step_def
      by (simp split: if_splits)
  next
    case WDone
    then show ?thesis using assms i unfolding worker_step_def by simp
  qed
qed

lemma client_step_cases [consumes 1, case_names uaf spawn ctor_done add_null add_lock add_push
    add_unlock add_notify_none dtor_test dtor_lock dtor_set dtor_unlock dtor_notify dtor_end]:
  assumes "client_step s = Some s'"
  obtains
    "uses_pool (cpc s) \<or> (\<exists>j t. cpc s = CAddWant j t \<and> handles s ! j = Ref)" "freed s"
      "s' = s\<lparr> fault := Some UseAfterFree \<rparr>"
  | i where "cpc s = CCtor i" "i < nthreads s"
      "s' = s\<lparr> workers := workers s @ [WLock], refs := refs s + 1, cpc := CCtor (i + 1) \<rparr>"
  | i where "cpc s = CCtor i" "\<not> i < nthreads s" "s' = s\<lparr> cpc := CIdle \<rparr>"
  | j t where "cpc s = CAddWant j t" "handles s ! j \<noteq> Ref" "s' = s\<lparr> fault := Some NullDeref \<rparr>"
  | j t where "cpc s = CAddWant j t" "handles s ! j = Ref" "\<not> freed s" "mtx s = None"
      "s' = s\<lparr> mtx := Some Client, cpc := CAddLocked j t \<rparr>"
  | j t where "cpc s = CAddLocked j t" "\<not> freed s"
      "s' = s\<lparr> tasks := tasks s @ [t], submitted := submitted s @ [t], cpc := CAddPushed j \<rparr>"
  | j where "cpc s = CAddPushed j" "\<not> freed s" "s' = s\<lparr> mtx := None, cpc := CAddNotify j \<rparr>"
  | j where "cpc s = CAddNotify j" "\<not> freed s" "WWait \<notin> set (workers s)" "s' = s\<lparr> cpc := CIdle \<rparr>"
  | j where "cpc s = CDtorTest j"
      "s' = s\<lparr> cpc := (if handles s ! j = Ref then CDtorWant j else CDtorEnd j) \<rparr>"
  | j where "cpc s = CDtorWant j" "\<not> freed s" "mtx s = None"
      "s' = s\<lparr> mtx := Some Client, cpc := CDtorLocked j \<rparr>"
  | j where "cpc s = CDtorLocked j" "\<not> freed s" "s' = s\<lparr> isClosed := True, cpc := CDtorSet j \<rparr>"
  | j where "cpc s = CDtorSet j" "\<not> freed s" "s' = s\<lparr> mtx := None, cpc := CDtorNotify j \<rparr>"
  | j where "cpc s = CDtorNotify j" "\<not> freed s"
      "s' = s\<lparr> workers := notify_all (workers s), cpc := CDtorEnd j \<rparr>"
  | j where "cpc s = CDtorEnd j"
      "s' = (if handles s ! j = Ref then release s else s)\<lparr> handles := (handles s)[j := Gone], cpc := CIdle \<rparr>"
proof (cases "cpc s")
  case (CCtor i)
  then show ?thesis using assms that(2,3) unfolding client_step_def by (simp split: if_splits)
next
  case CIdle
  then show ?thesis using assms unfolding client_step_def by simp
next
  case (CAddWant j t)
  then show ?thesis using assms that(1,4,5) unfolding client_step_def by (simp split: if_splits)
next
  case (CAddLocked j t)
  then show ?thesis using assms that(1,6) unfolding client_step_def by (simp split: if_splits)
next
  case (CAddPushed j)
  then show ?thesis using assms that(1,7) unfolding client_step_def by (simp split: if_splits)
next
  case (CAddNotify j)
  then show ?thesis using assms that(1,8) unfolding client_step_def by (simp split: if_splits)
next
  case (CDtorTest j)
  then show ?thesis using assms that(9) unfolding client_step_def by (simp split: if_splits)
next
  case (CDtorWant j)
  then show ?thesis using assms that(1,10) unfolding client_step_def by (simp split: if_splits)
next
  case (CDtorLocked j)
  then show ?thesis using assms that(1,11) unfolding client_step_def by (simp split: if_splits)
next
  case (CDtorSet j)
  then show ?thesis using assms that(1,12) unfolding client_step_def by (simp split: if_splits)
next
  case (CDtorNotify j)
  then show ?thesis using assms that(1,13) unfolding client_step_def by (simp split: if_splits)
next
  case (CDtorEnd j)
  then show ?thesis using assms that(14) unfolding client_step_def by (simp split: if_splits)
qed

lemma notify_step_cases [consumes 1, case_names uaf wake]:
  assumes "notify_step k s = Some s'"
  obtains
    j where "cpc s = CAddNotify j" "freed s" "s' = s\<lparr> fault := Some UseAfterFree \<rparr>"
  | j where "cpc s = CAddNotify j" "\<not> freed s" "k < length (workers s)" "workers s ! k = WWait"
      "s' = s\<lparr> workers := (workers s)[k := WWoken], cpc := CIdle \<rparr>"
  using assms unfolding notify_step_def by (cases "cpc s") (simp_all split: if_splits)

lemma call_step_cases [consumes 1, case_names default move add destroy]:
  assumes "call_step c s = Some s'"
  obtains
    "c = Default" "cpc s = CIdle" "s' = s\<lparr> handles := handles s @ [Null] \<rparr>"
  | j where "c = Move j" "cpc s = CIdle" "j < length (handles s)" "handles s ! j \<noteq> Gone"
      "s' = s\<lparr> handles := (handles s)[j := Null] @ [handles s ! j] \<rparr>"
  | j t where "c = AddTask j t" "cpc s = CIdle" "j < length (handles s)" "handles s ! j \<noteq> Gone"
      "s' = s\<lparr> cpc := CAddWant j t \<rparr>"
  | j where "c = Destroy j" "cpc s = CIdle" "j < length (handles s)" "handles s ! j \<noteq> Gone"
      "s' = s\<lparr> cpc := CDtorTest j \<rparr>"
  using assms unfolding call_step_def by (cases c) (simp_all split: if_splits)

lemma spurious_step_cases [consumes 1, case_names spurious]:
  assumes "spurious_step i s = Some s'"
  obtains "i < length (workers s)" "workers s ! i = WWait"
      "s' = s\<lparr> workers := (workers s)[i := WWoken] \<rparr>"
  using assms unfolding spurious_step_def by (simp split: if_splits)

lemma thread_fail_step_cases [consumes 1, case_names fail]:
  assumes "thread_fail_step s = Some s'"
  obtains i where "cpc s = CCtor i" "i < nthreads s"
      "s' = release (s\<lparr> handles := (handles s)[0 := Gone], cpc := CIdle,
                        ctor_failed := True \<rparr>)"
  using assms unfolding thread_fail_step_def by (cases "cpc s") (simp_all split: if_splits)

lemma process_exit_cases [consumes 1, case_names quit]:
  assumes "process_exit s = Some s'"
  obtains "cpc s = CIdle" "s' = s\<lparr> fault := Some Exited \<rparr>"
  using assms unfolding process_exit_def by (simp split: if_splits)

lemma step_cases [consumes 1, case_names call client notify fail quit worker spurious]:
  assumes "step a s = Some s'"
  obtains
    c where "a = ACall c" "fault s = None" "call_step c s = Some s'"
  | "a = AClient" "fault s = None" "client_step s = Some s'"
  | k where "a = ANotify k" "fault s = None" "notify_step k s = Some s'"
  | "a = AThreadFail" "fault s = None" "thread_fail_step s = Some s'"
  | "a = AExit" "fault s = None" "process_exit s = Some s'"
  | i where "a = AWorker i" "fault s = None" "worker_step i s = Some s'"
  | i where "a = ASpurious i" "fault s = None" "spurious_step i s = Some s'"
  using assms unfolding step_def by (cases a) (simp_all split: if_splits)

section \<open>Invariant: the mutex and the program counters agree\<close>

lemma lock_okD:
  "lock_ok s \<Longrightarrow> i < length (workers s) \<Longrightarrow> holds (workers s ! i) \<longleftrightarrow> mtx s = Some (Worker i)"
  "lock_ok s \<Longrightarrow> client_holds (cpc s) \<longleftrightarrow> mtx s = Some Client"
  "lock_ok s \<Longrightarrow> mtx s = Some (Worker i) \<Longrightarrow> i < length (workers s)"
  unfolding lock_ok_def by blast+

lemma lock_ok_start: "lock_ok (start n)"
  by (simp add: lock_ok_def start_def)

lemma lock_ok_call: "lock_ok s \<Longrightarrow> call_step c s = Some s' \<Longrightarrow> lock_ok s'"
  by (erule call_step_cases) (simp_all add: lock_ok_def)

lemma holds_notify_all:
  "i < length ws \<Longrightarrow> holds (notify_all ws ! i) = holds (ws ! i)"
  by (cases "ws ! i") (simp_all add: notify_all_def)

lemma length_notify_all [simp]: "length (notify_all ws) = length ws"
  by (simp add: notify_all_def)

lemma lock_ok_client: "lock_ok s \<Longrightarrow> client_step s = Some s' \<Longrightarrow> lock_ok s'"
  by (erule client_step_cases)
     (auto simp: lock_ok_def release_def nth_append holds_notify_all)

lemma lock_ok_notify:
  assumes "lock_ok s" "notify_step k s = Some s'" shows "lock_ok s'"
  using assms(2)
proof (cases rule: notify_step_cases)
  case (uaf j)
  then show ?thesis using assms(1) by (simp add: lock_ok_def)
next
  case (wake j)
  have "holds ((workers s)[k := WWoken] ! i) = holds (workers s ! i)" for i
    using wake by (cases "i = k") simp_all
  then show ?thesis using assms(1) wake by (simp add: lock_ok_def)
qed

lemma lock_ok_spurious:
  assumes "lock_ok s" "spurious_step k s = Some s'" shows "lock_ok s'"
  using assms(2)
proof (cases rule: spurious_step_cases)
  case spurious
  have "holds ((workers s)[k := WWoken] ! i) = holds (workers s ! i)" for i
    using spurious by (cases "i = k") simp_all
  then show ?thesis using assms(1) spurious by (simp add: lock_ok_def)
qed

lemma lock_ok_acquire:
  assumes "lock_ok s" "i < length (workers s)" "mtx s = None"
    and "mtx s' = Some (Worker i)" "workers s' = (workers s)[i := WTop]" "cpc s' = cpc s"
  shows "lock_ok s'"
  using assms by (auto simp: lock_ok_def nth_list_update)

lemma lock_ok_yield:
  assumes "lock_ok s" "i < length (workers s)" "holds (workers s ! i)" "\<not> holds p"
    and "mtx s' = None" "workers s' = (workers s)[i := p]" "cpc s' = cpc s"
  shows "lock_ok s'"
proof -
  have m: "mtx s = Some (Worker i)" using assms lock_okD(1) by blast
  then show ?thesis using assms(1,2,4-) by (auto simp: lock_ok_def nth_list_update)
qed

lemma lock_ok_keep:
  assumes "lock_ok s" "i < length (workers s)" "holds p = holds (workers s ! i)"
    and "mtx s' = mtx s" "workers s' = (workers s)[i := p]" "cpc s' = cpc s"
  shows "lock_ok s'"
proof -
  have "holds ((workers s)[i := p] ! k) = holds (workers s ! k)" for k
    using assms(2,3) by (cases "k = i") simp_all
  then show ?thesis using assms(1,4-) by (simp add: lock_ok_def)
qed

lemma lock_ok_same:
  assumes "lock_ok s" "mtx s' = mtx s" "workers s' = workers s" "cpc s' = cpc s"
  shows "lock_ok s'"
  using assms by (simp add: lock_ok_def)

lemma lock_ok_worker:
  assumes "lock_ok s" "worker_step i s = Some s'" shows "lock_ok s'"
  using assms(2)
proof (cases rule: worker_step_cases)
  case uaf
  then show ?thesis by (intro lock_ok_same[OF assms(1)]) simp_all
next
  case lock
  then show ?thesis by (intro lock_ok_acquire[OF assms(1)]) simp_all
next
  case (pop t q)
  then show ?thesis by (intro lock_ok_keep[OF assms(1), of i "WPopped t"]) simp_all
next
  case exit
  then show ?thesis by (intro lock_ok_yield[OF assms(1), of i WDone]) (simp_all add: release_def)
next
  case wait
  then show ?thesis by (intro lock_ok_yield[OF assms(1), of i WWait]) simp_all
next
  case (unlock t)
  then show ?thesis by (intro lock_ok_yield[OF assms(1), of i "WRun t"]) simp_all
next
  case (ret t)
  then show ?thesis by (intro lock_ok_keep[OF assms(1), of i WRelock]) simp_all
next
  case (throw t)
  then show ?thesis by (intro lock_ok_same[OF assms(1)]) simp_all
next
  case relock
  then show ?thesis by (intro lock_ok_acquire[OF assms(1)]) simp_all
next
  case woken
  then show ?thesis by (intro lock_ok_acquire[OF assms(1)]) simp_all
qed

lemma lock_ok_fail: "lock_ok s \<Longrightarrow> thread_fail_step s = Some s' \<Longrightarrow> lock_ok s'"
  by (erule thread_fail_step_cases) (simp add: lock_ok_def release_def)

lemma lock_ok_quit: "lock_ok s \<Longrightarrow> process_exit s = Some s' \<Longrightarrow> lock_ok s'"
  by (erule process_exit_cases) (simp add: lock_ok_def)

lemma lock_ok_step: "lock_ok s \<Longrightarrow> step a s = Some s' \<Longrightarrow> lock_ok s'"
  by (erule step_cases)
     (blast intro: lock_ok_call lock_ok_client lock_ok_notify lock_ok_fail lock_ok_quit lock_ok_worker
        lock_ok_spurious)+

lemma lock_ok_reachable: "reachable n s \<Longrightarrow> lock_ok s"
  by (induction rule: reachable_induct) (auto intro: lock_ok_start lock_ok_step)

section \<open>Invariants: handles, the use count, faults\<close>

lemma count_list_update:
  "j < length xs \<Longrightarrow>
     count_list (xs[j := v]) a + (if xs ! j = a then 1 else 0) =
     count_list xs a + (if v = a then 1 else 0)"
proof (induction xs arbitrary: j)
  case Nil
  then show ?case by simp
next
  case (Cons x xs)
  show ?case
  proof (cases j)
    case 0
    then show ?thesis by simp
  next
    case (Suc k)
    then have "k < length xs" using Cons.prems by simp
    from Cons.IH[OF this] show ?thesis using Suc by (auto split: if_splits)
  qed
qed

lemma count_list_pos: "j < length xs \<Longrightarrow> xs ! j = a \<Longrightarrow> 0 < count_list xs a"
  by (metis count_list_0_iff gr0I nth_mem)

lemma handles_ok_start: "handles_ok (start n)"
  by (simp add: handles_ok_def start_def)

lemma handles_ok_same:
  "handles_ok s \<Longrightarrow> handles s' = handles s \<Longrightarrow> cpc s' = cpc s \<Longrightarrow> handles_ok s'"
  by (simp add: handles_ok_def)

lemma handles_ok_call:
  assumes "handles_ok s" "call_step c s = Some s'" shows "handles_ok s'"
  using assms(2)
proof (cases rule: call_step_cases)
  case default
  then show ?thesis using assms(1) by (simp add: handles_ok_def)
next
  case (move j)
  have "count_list ((handles s)[j := Null] @ [handles s ! j]) Ref = count_list (handles s) Ref"
    using count_list_update[of j "handles s" Null Ref] move(3) by auto
  then show ?thesis using assms(1) move by (simp add: handles_ok_def)
next
  case (add j t)
  then show ?thesis using assms(1) by (simp add: handles_ok_def)
next
  case (destroy j)
  then show ?thesis using assms(1) by (simp add: handles_ok_def)
qed

lemma handles_ok_client:
  assumes "handles_ok s" "client_step s = Some s'" shows "handles_ok s'"
  using assms(2)
proof (cases rule: client_step_cases)
  case (dtor_end j)
  have j: "j < length (handles s)" using assms(1) dtor_end(1) by (simp add: handles_ok_def)
  have "count_list ((handles s)[j := Gone]) Ref \<le> count_list (handles s) Ref"
    using count_list_update[OF j, of Gone Ref] by (simp split: if_splits)
  then show ?thesis using assms(1) dtor_end by (simp add: handles_ok_def release_def)
qed (use assms(1) in \<open>simp_all add: handles_ok_def\<close>)

lemma handles_ok_notify: "handles_ok s \<Longrightarrow> notify_step k s = Some s' \<Longrightarrow> handles_ok s'"
  by (erule notify_step_cases) (simp_all add: handles_ok_def)

lemma handles_ok_worker: "handles_ok s \<Longrightarrow> worker_step i s = Some s' \<Longrightarrow> handles_ok s'"
  by (erule worker_step_cases) (simp_all add: handles_ok_def release_def)

lemma handles_ok_spurious: "handles_ok s \<Longrightarrow> spurious_step i s = Some s' \<Longrightarrow> handles_ok s'"
  by (erule spurious_step_cases) (simp_all add: handles_ok_def)

lemma handles_ok_fail: "handles_ok s \<Longrightarrow> thread_fail_step s = Some s' \<Longrightarrow> handles_ok s'"
  by (erule thread_fail_step_cases) (simp add: handles_ok_def release_def)

lemma handles_ok_quit: "handles_ok s \<Longrightarrow> process_exit s = Some s' \<Longrightarrow> handles_ok s'"
  by (erule process_exit_cases) (simp add: handles_ok_def)

lemma handles_ok_step: "handles_ok s \<Longrightarrow> step a s = Some s' \<Longrightarrow> handles_ok s'"
  by (erule step_cases)
     (blast intro: handles_ok_call handles_ok_client handles_ok_notify handles_ok_fail handles_ok_quit
        handles_ok_worker handles_ok_spurious)+

lemma handles_ok_reachable: "reachable n s \<Longrightarrow> handles_ok s"
  by (induction rule: reachable_induct) (auto intro: handles_ok_start handles_ok_step)

text \<open>The pool state is referenced while the client is inside an operation on it.\<close>

lemma handles_ok_Ref:
  assumes "handles_ok s" "uses_pool (cpc s)"
  shows "0 < count_list (handles s) Ref"
proof -
  obtain j where "cpc_handle (cpc s) = Some j" using assms(2) by (cases "cpc s") simp_all
  then show ?thesis using assms count_list_pos[of j "handles s" Ref] by (auto simp: handles_ok_def)
qed

lemma live_update:
  "i < length ws \<Longrightarrow>
     live (ws[i := p]) + (if ws ! i \<noteq> WDone then 1 else 0) =
     live ws + (if p \<noteq> WDone then 1 else 0)"
  unfolding live_def
proof (induction ws arbitrary: i)
  case Nil
  then show ?case by simp
next
  case (Cons x xs)
  show ?case
  proof (cases i)
    case 0
    then show ?thesis by simp
  next
    case (Suc k)
    then have "k < length xs" using Cons.prems by simp
    from Cons.IH[OF this] show ?thesis using Suc by (auto split: if_splits)
  qed
qed

lemma live_pos: "i < length ws \<Longrightarrow> ws ! i \<noteq> WDone \<Longrightarrow> 0 < live ws"
  unfolding live_def by (metis (mono_tags, lifting) filter_empty_conv length_greater_0_conv nth_mem)

lemma live_wake: "live (notify_all ws) = live ws"
  unfolding live_def notify_all_def by (induction ws) auto

lemma live_snoc: "live (ws @ [p]) = live ws + (if p \<noteq> WDone then 1 else 0)"
  by (simp add: live_def)

lemma live_keep:
  "i < length ws \<Longrightarrow> ws ! i \<noteq> WDone \<Longrightarrow> p \<noteq> WDone \<Longrightarrow> live (ws[i := p]) = live ws"
  using live_update[of i ws p] by simp

lemma ref_ok_start: "ref_ok (start n)"
  by (simp add: ref_ok_def start_def live_def)

lemma ref_ok_call:
  assumes "ref_ok s" "call_step c s = Some s'" shows "ref_ok s'"
  using assms(2)
proof (cases rule: call_step_cases)
  case (move j)
  have "count_list ((handles s)[j := Null] @ [handles s ! j]) Ref = count_list (handles s) Ref"
    using count_list_update[of j "handles s" Null Ref] move(3) by auto
  then show ?thesis using assms(1) move by (simp add: ref_ok_def)
qed (use assms(1) in \<open>auto simp: ref_ok_def\<close>)

lemma ref_ok_client:
  assumes "ref_ok s" "handles_ok s" "client_step s = Some s'" shows "ref_ok s'"
  using assms(3)
proof (cases rule: client_step_cases)
  case (spawn i)
  then have "handles s = [Ref]" using assms(2) by (simp add: handles_ok_def)
  then show ?thesis using assms(1) spawn by (simp add: ref_ok_def live_snoc)
next
  case (dtor_notify j)
  then show ?thesis using assms(1) by (auto simp: ref_ok_def live_wake)
next
  case (dtor_end j)
  have j: "j < length (handles s)" using assms(2) dtor_end(1) by (simp add: handles_ok_def)
  show ?thesis
    using assms(1) dtor_end count_list_update[OF j, of Gone Ref]
    by (auto simp: ref_ok_def release_def split: if_splits)
qed (use assms(1) in \<open>auto simp: ref_ok_def\<close>)

lemma ref_ok_notify:
  assumes "ref_ok s" "notify_step k s = Some s'" shows "ref_ok s'"
  using assms(2)
proof (cases rule: notify_step_cases)
  case (wake j)
  then show ?thesis using assms(1) by (auto simp: ref_ok_def live_keep)
qed (use assms(1) in \<open>auto simp: ref_ok_def\<close>)

lemma ref_ok_spurious:
  assumes "ref_ok s" "spurious_step k s = Some s'" shows "ref_ok s'"
  using assms(2)
proof (cases rule: spurious_step_cases)
  case spurious
  then show ?thesis using assms(1) by (auto simp: ref_ok_def live_keep)
qed

lemma ref_ok_worker:
  assumes "ref_ok s" "worker_step i s = Some s'" shows "ref_ok s'"
  using assms(2)
proof (cases rule: worker_step_cases)
  case exit
  then show ?thesis
    using assms(1) live_update[of i "workers s" WDone]
    by (auto simp: ref_ok_def release_def)
qed (use assms(1) in \<open>auto simp: ref_ok_def live_keep\<close>)

lemma ref_ok_fail:
  assumes "ref_ok s" "handles_ok s" "thread_fail_step s = Some s'" shows "ref_ok s'"
  using assms(3)
proof (cases rule: thread_fail_step_cases)
  case (fail i)
  then have "handles s = [Ref]" using assms(2) by (simp add: handles_ok_def)
  then show ?thesis using assms(1) fail by (auto simp: ref_ok_def release_def)
qed

lemma ref_ok_quit: "ref_ok s \<Longrightarrow> process_exit s = Some s' \<Longrightarrow> ref_ok s'"
  by (erule process_exit_cases) (simp add: ref_ok_def)

lemma ref_ok_step: "ref_ok s \<Longrightarrow> handles_ok s \<Longrightarrow> step a s = Some s' \<Longrightarrow> ref_ok s'"
  by (erule step_cases)
     (blast intro: ref_ok_call ref_ok_client ref_ok_notify ref_ok_fail ref_ok_quit ref_ok_worker
        ref_ok_spurious)+

lemma ref_ok_reachable: "reachable n s \<Longrightarrow> ref_ok s"
  by (induction rule: reachable_induct)
     (auto intro: ref_ok_start ref_ok_step handles_ok_reachable)

lemma fault_ok_step:
  assumes "fault_ok s" "ref_ok s" "handles_ok s" "step a s = Some s'"
  shows "fault_ok s'"
  using assms(4)
proof (cases rule: step_cases)
  case (call c)
  from call(3) show ?thesis using assms(1) by (cases rule: call_step_cases) (simp_all add: fault_ok_def)
next
  case client
  from client(3) show ?thesis
  proof (cases rule: client_step_cases)
    case uaf
    then have "0 < count_list (handles s) Ref"
      using handles_ok_Ref[OF assms(3)] assms(3) count_list_pos[of _ "handles s" Ref]
      by (auto simp: handles_ok_def)
    then show ?thesis using uaf(2) assms(2) by (simp add: ref_ok_def)
  qed (use assms(1) in \<open>simp_all add: fault_ok_def release_def\<close>)
next
  case (notify k)
  from notify(3) show ?thesis
  proof (cases rule: notify_step_cases)
    case (uaf j)
    then have "0 < count_list (handles s) Ref"
      using handles_ok_Ref[OF assms(3)] by simp
    then show ?thesis using uaf(2) assms(2) by (simp add: ref_ok_def)
  qed (use assms(1) in \<open>simp_all add: fault_ok_def\<close>)
next
  case fail
  from fail(3) show ?thesis using assms(1)
    by (cases rule: thread_fail_step_cases) (simp add: fault_ok_def release_def)
next
  case quit
  from quit(3) show ?thesis using assms(1)
    by (cases rule: process_exit_cases) (simp add: fault_ok_def release_def)
next
  case (worker i)
  from worker(3) show ?thesis
  proof (cases rule: worker_step_cases)
    case uaf
    then show ?thesis using live_pos[of i "workers s"] assms(2) by (simp add: ref_ok_def)
  qed (use assms(1) in \<open>simp_all add: fault_ok_def release_def\<close>)
next
  case (spurious i)
  from spurious(3) show ?thesis using assms(1)
    by (cases rule: spurious_step_cases) (simp_all add: fault_ok_def)
qed

lemma fault_ok_reachable: "reachable n s \<Longrightarrow> fault_ok s"
proof (induction rule: reachable_induct)
  case start
  then show ?case by (simp add: fault_ok_def start_def)
next
  case (step s a s')
  then show ?case using fault_ok_step ref_ok_reachable handles_ok_reachable by blast
qed

section \<open>Invariants: the closed flag, the queue and the logs\<close>

lemma notin_update: "x \<notin> set xs \<Longrightarrow> x \<noteq> v \<Longrightarrow> x \<notin> set (xs[i := v])"
  by (metis insert_iff set_update_subset_insert subsetD)

lemma in_update: "x \<in> set (xs[i := v]) \<Longrightarrow> x \<noteq> v \<Longrightarrow> x \<in> set xs"
  using notin_update by metis

lemma wake_set [simp]:
  "WWait \<notin> set (notify_all ws)"
  "WDone \<in> set (notify_all ws) \<longleftrightarrow> WDone \<in> set ws"
  unfolding notify_all_def by (induction ws) auto

lemma closed_ok_start: "closed_ok (start n)"
  by (simp add: closed_ok_def start_def)

lemma open_in_op:
  assumes "closed_ok s" "handles_ok s" "cpc_handle (cpc s) = Some j" "handles s ! j = Ref"
    "\<not> closing (cpc s)"
  shows "\<not> isClosed s"
proof -
  have "j < length (handles s)" using assms(2,3) by (simp add: handles_ok_def)
  then have "Ref \<in> set (handles s)" using assms(4) nth_mem by fastforce
  then show ?thesis using assms(1,5) by (auto simp: closed_ok_def)
qed

lemma open_uses_pool:
  assumes "closed_ok s" "handles_ok s" "uses_pool (cpc s)" "\<not> closing (cpc s)"
  shows "\<not> isClosed s"
proof -
  obtain j where j: "cpc_handle (cpc s) = Some j" using assms(3) by (cases "cpc s") simp_all
  then have "handles s ! j = Ref" using assms(2,3) by (simp add: handles_ok_def)
  then show ?thesis using open_in_op[OF assms(1,2) j] assms(4) by simp
qed

lemma closed_ok_call:
  assumes "closed_ok s" "call_step c s = Some s'" shows "closed_ok s'"
  using assms(2)
proof (cases rule: call_step_cases)
  case (move j)
  have "Ref \<notin> set ((handles s)[j := Null] @ [handles s ! j])" if r: "Ref \<notin> set (handles s)"
  proof -
    have "handles s ! j \<in> set (handles s)" using move(3) by simp
    then have "handles s ! j \<noteq> Ref" using r by metis
    then show ?thesis using r by (auto dest: in_update)
  qed
  then show ?thesis using assms(1) move by (auto simp: closed_ok_def)
qed (use assms(1) in \<open>auto simp: closed_ok_def\<close>)

lemma closed_ok_client:
  assumes "closed_ok s" "handles_ok s" "client_step s = Some s'" shows "closed_ok s'"
  using assms(3)
proof (cases rule: client_step_cases)
  case uaf
  then show ?thesis using assms(1) by (simp add: closed_ok_def)
next
  case (spawn i)
  then show ?thesis using assms(1) by (auto simp: closed_ok_def)
next
  case (ctor_done i)
  then show ?thesis using assms(1) by (auto simp: closed_ok_def)
next
  case (add_null j t)
  then show ?thesis using assms(1) by (simp add: closed_ok_def)
next
  case (add_lock j t)
  then have "\<not> isClosed s" using open_in_op[OF assms(1,2), of j] by simp
  then show ?thesis using assms(1) add_lock by (simp add: closed_ok_def)
next
  case (add_push j t)
  then have "\<not> isClosed s" using open_uses_pool[OF assms(1,2)] by simp
  then show ?thesis using assms(1) add_push by (simp add: closed_ok_def)
next
  case (add_unlock j)
  then have "\<not> isClosed s" using open_uses_pool[OF assms(1,2)] by simp
  then show ?thesis using assms(1) add_unlock by (simp add: closed_ok_def)
next
  case (add_notify_none j)
  then have "\<not> isClosed s" using open_uses_pool[OF assms(1,2)] by simp
  then show ?thesis using assms(1) add_notify_none by (simp add: closed_ok_def)
next
  case (dtor_test j)
  then show ?thesis using assms(1) by (auto simp: closed_ok_def)
next
  case (dtor_lock j)
  then have "\<not> isClosed s" using open_uses_pool[OF assms(1,2)] by simp
  then show ?thesis using assms(1) dtor_lock by (simp add: closed_ok_def)
next
  case (dtor_set j)
  then have "handles s ! j = Ref" using assms(2) by (simp add: handles_ok_def)
  then show ?thesis using assms(1) dtor_set by (simp add: closed_ok_def)
next
  case (dtor_unlock j)
  then have "handles s ! j = Ref" using assms(2) by (simp add: handles_ok_def)
  then show ?thesis using assms(1) dtor_unlock by (simp add: closed_ok_def)
next
  case (dtor_notify j)
  then have "handles s ! j = Ref" using assms(2) by (simp add: handles_ok_def)
  then show ?thesis using assms(1) dtor_notify by (simp add: closed_ok_def)
next
  case (dtor_end j)
  have j: "j < length (handles s)" using assms(2) dtor_end(1) by (simp add: handles_ok_def)
  have "Ref \<notin> set ((handles s)[j := Gone])" if c: "isClosed s"
  proof (cases "handles s ! j = Ref")
    case True
    then have "count_list ((handles s)[j := Gone]) Ref = 0"
      using count_list_update[OF j, of Gone Ref] assms(2) by (simp add: handles_ok_def)
    then show ?thesis by (simp add: count_list_0_iff)
  next
    case False
    then have "Ref \<notin> set (handles s)" using assms(1) c dtor_end(1) by (auto simp: closed_ok_def)
    then show ?thesis by (simp add: notin_update)
  qed
  then show ?thesis using assms(1) dtor_end by (auto simp: closed_ok_def release_def)
qed

lemma closed_ok_notify:
  assumes "closed_ok s" "handles_ok s" "notify_step k s = Some s'" shows "closed_ok s'"
  using assms(3)
proof (cases rule: notify_step_cases)
  case (uaf j)
  then show ?thesis using assms(1) by (simp add: closed_ok_def)
next
  case (wake j)
  then have "\<not> isClosed s" using open_uses_pool[OF assms(1,2)] by simp
  then show ?thesis using assms(1) wake by (auto simp: closed_ok_def dest: in_update)
qed

lemma closed_ok_spurious:
  assumes "closed_ok s" "spurious_step k s = Some s'" shows "closed_ok s'"
  using assms(2)
proof (cases rule: spurious_step_cases)
  case spurious
  then show ?thesis using assms(1) by (auto simp: closed_ok_def dest: in_update)
qed

lemma closed_ok_worker:
  assumes "closed_ok s" "worker_step i s = Some s'" shows "closed_ok s'"
  using assms(2)
proof (cases rule: worker_step_cases)
  case uaf
  then show ?thesis using assms(1) by (simp add: closed_ok_def)
next
  case lock
  then show ?thesis using assms(1) by (auto simp: closed_ok_def dest: in_update)
next
  case (pop t q)
  then show ?thesis using assms(1) by (auto simp: closed_ok_def dest: in_update)
next
  case exit
  then show ?thesis using assms(1) by (auto simp: closed_ok_def release_def dest: in_update)
next
  case wait
  then show ?thesis using assms(1) by (auto simp: closed_ok_def dest: in_update)
next
  case (unlock t)
  then show ?thesis using assms(1) by (auto simp: closed_ok_def dest: in_update)
next
  case (ret t)
  then show ?thesis using assms(1) by (auto simp: closed_ok_def dest: in_update)
next
  case (throw t)
  then show ?thesis using assms(1) by (simp add: closed_ok_def)
next
  case relock
  then show ?thesis using assms(1) by (auto simp: closed_ok_def dest: in_update)
next
  case woken
  then show ?thesis using assms(1) by (auto simp: closed_ok_def dest: in_update)
qed

lemma closed_ok_fail:
  assumes "closed_ok s" "handles_ok s" "thread_fail_step s = Some s'" shows "closed_ok s'"
  using assms(3)
proof (cases rule: thread_fail_step_cases)
  case (fail i)
  then have "handles s = [Ref]" using assms(2) by (simp add: handles_ok_def)
  then show ?thesis using assms(1) fail by (simp add: closed_ok_def release_def)
qed

lemma closed_ok_quit: "closed_ok s \<Longrightarrow> process_exit s = Some s' \<Longrightarrow> closed_ok s'"
  by (erule process_exit_cases) (simp add: closed_ok_def)

lemma closed_ok_step: "closed_ok s \<Longrightarrow> handles_ok s \<Longrightarrow> step a s = Some s' \<Longrightarrow> closed_ok s'"
  by (erule step_cases)
     (blast intro: closed_ok_call closed_ok_client closed_ok_notify closed_ok_fail closed_ok_quit
        closed_ok_worker closed_ok_spurious)+

lemma closed_ok_reachable: "reachable n s \<Longrightarrow> closed_ok s"
  by (induction rule: reachable_induct)
     (auto intro: closed_ok_start closed_ok_step handles_ok_reachable)

lemma flying_update:
  "i < length ws \<Longrightarrow>
     flying (ws[i := p]) + mset (pc_task (ws ! i)) = flying ws + mset (pc_task p)"
  unfolding flying_def
proof (induction ws arbitrary: i)
  case Nil
  then show ?case by simp
next
  case (Cons x xs)
  show ?case
  proof (cases i)
    case 0
    then show ?thesis by simp
  next
    case (Suc k)
    then have "k < length xs" using Cons.prems by simp
    from Cons.IH[OF this] show ?thesis using Suc by (simp add: ac_simps)
  qed
qed

lemma flying_keep:
  "i < length ws \<Longrightarrow> pc_task (ws ! i) = pc_task p \<Longrightarrow> flying (ws[i := p]) = flying ws"
  using flying_update[of i ws p] by simp

lemma flying_wake: "flying (notify_all ws) = flying ws"
  unfolding flying_def notify_all_def by (induction ws) auto

lemma flying_snoc: "flying (ws @ [p]) = flying ws + mset (pc_task p)"
  by (simp add: flying_def)

lemma logs_ok_start: "logs_ok (start n)"
  by (simp add: logs_ok_def start_def flying_def)

lemma logs_ok_call: "logs_ok s \<Longrightarrow> call_step c s = Some s' \<Longrightarrow> logs_ok s'"
  by (erule call_step_cases) (simp_all add: logs_ok_def)

lemma logs_ok_client: "logs_ok s \<Longrightarrow> client_step s = Some s' \<Longrightarrow> logs_ok s'"
  by (erule client_step_cases) (simp_all add: logs_ok_def flying_snoc flying_wake release_def)

lemma logs_ok_notify: "logs_ok s \<Longrightarrow> notify_step k s = Some s' \<Longrightarrow> logs_ok s'"
  by (erule notify_step_cases) (simp_all add: logs_ok_def flying_keep)

lemma logs_ok_spurious: "logs_ok s \<Longrightarrow> spurious_step k s = Some s' \<Longrightarrow> logs_ok s'"
  by (erule spurious_step_cases) (simp_all add: logs_ok_def flying_keep)

lemma logs_ok_worker:
  assumes "logs_ok s" "worker_step i s = Some s'" shows "logs_ok s'"
  using assms(2)
proof (cases rule: worker_step_cases)
  case (pop t q)
  then show ?thesis using assms(1) flying_update[of i "workers s" "WPopped t"]
    by (simp add: logs_ok_def)
next
  case (ret t)
  then show ?thesis using assms(1) flying_update[of i "workers s" WRelock]
    by (simp add: logs_ok_def)
qed (use assms(1) in \<open>simp_all add: logs_ok_def flying_keep release_def\<close>)

lemma logs_ok_fail: "logs_ok s \<Longrightarrow> thread_fail_step s = Some s' \<Longrightarrow> logs_ok s'"
  by (erule thread_fail_step_cases) (simp add: logs_ok_def release_def)

lemma logs_ok_quit: "logs_ok s \<Longrightarrow> process_exit s = Some s' \<Longrightarrow> logs_ok s'"
  by (erule process_exit_cases) (simp add: logs_ok_def)

lemma logs_ok_step: "logs_ok s \<Longrightarrow> step a s = Some s' \<Longrightarrow> logs_ok s'"
  by (erule step_cases)
     (blast intro: logs_ok_call logs_ok_client logs_ok_notify logs_ok_fail logs_ok_quit logs_ok_worker
        logs_ok_spurious)+

lemma logs_ok_reachable: "reachable n s \<Longrightarrow> logs_ok s"
  by (induction rule: reachable_induct) (auto intro: logs_ok_start logs_ok_step)

section \<open>The constructor loop\<close>

lemma unat_inc: "i < n \<Longrightarrow> unat (i + 1 :: 'a::len word) = Suc (unat i)"
proof -
  assume a: "i < n"
  have "i + 1 \<noteq> 0"
  proof
    assume "i + 1 = 0"
    then have "i = - 1" by (simp add: eq_neg_iff_add_eq_0)
    then show False using a by simp
  qed
  then show ?thesis using unatSuc[of i] by (simp add: add.commute)
qed

lemma ctor_ok_start: "ctor_ok n (start n)"
  by (simp add: ctor_ok_def start_def)

lemma ctor_ok_call: "ctor_ok n s \<Longrightarrow> call_step c s = Some s' \<Longrightarrow> ctor_ok n s'"
  by (erule call_step_cases) (simp_all add: ctor_ok_def)

lemma ctor_ok_client:
  assumes "ctor_ok n s" "client_step s = Some s'" shows "ctor_ok n s'"
  using assms(2)
proof (cases rule: client_step_cases)
  case (spawn i)
  then show ?thesis using assms(1) by (simp add: ctor_ok_def unat_inc inc_le)
next
  case (ctor_done i)
  then have "i = n" using assms(1) by (auto simp: ctor_ok_def)
  then show ?thesis using assms(1) ctor_done by (simp add: ctor_ok_def)
qed (use assms(1) in \<open>simp_all add: ctor_ok_def release_def\<close>)

lemma ctor_ok_notify: "ctor_ok n s \<Longrightarrow> notify_step k s = Some s' \<Longrightarrow> ctor_ok n s'"
  by (erule notify_step_cases) (simp_all add: ctor_ok_def)

lemma ctor_ok_worker: "ctor_ok n s \<Longrightarrow> worker_step i s = Some s' \<Longrightarrow> ctor_ok n s'"
  by (erule worker_step_cases) (simp_all add: ctor_ok_def release_def)

lemma ctor_ok_spurious: "ctor_ok n s \<Longrightarrow> spurious_step i s = Some s' \<Longrightarrow> ctor_ok n s'"
  by (erule spurious_step_cases) (simp_all add: ctor_ok_def)

lemma ctor_ok_fail:
  assumes "ctor_ok n s" "thread_fail_step s = Some s'" shows "ctor_ok n s'"
  using assms(2)
proof (cases rule: thread_fail_step_cases)
  case (fail i)
  then have "unat i < unat n" using assms(1) by (simp add: ctor_ok_def word_less_nat_alt)
  then show ?thesis using assms(1) fail by (simp add: ctor_ok_def release_def)
qed

lemma ctor_ok_quit: "ctor_ok n s \<Longrightarrow> process_exit s = Some s' \<Longrightarrow> ctor_ok n s'"
  by (erule process_exit_cases) (simp add: ctor_ok_def)

lemma ctor_ok_step: "ctor_ok n s \<Longrightarrow> step a s = Some s' \<Longrightarrow> ctor_ok n s'"
  by (erule step_cases)
     (blast intro: ctor_ok_call ctor_ok_client ctor_ok_notify ctor_ok_fail ctor_ok_quit ctor_ok_worker
        ctor_ok_spurious)+

lemma ctor_ok_reachable: "reachable n s \<Longrightarrow> ctor_ok n s"
  by (induction rule: reachable_induct) (auto intro: ctor_ok_start ctor_ok_step)

lemma move_no_ref:
  assumes "Ref \<notin> set hs" "j < length hs"
  shows "Ref \<notin> set (hs[j := Null] @ [hs ! j])"
proof -
  have "hs ! j \<in> set hs" using assms(2) by simp
  then have "hs ! j \<noteq> Ref" using assms(1) by metis
  then show ?thesis using assms(1) by (auto dest: in_update)
qed

lemma abandon_ok_start: "abandon_ok (start n)"
  by (simp add: abandon_ok_def start_def)

lemma abandon_ok_call: "abandon_ok s \<Longrightarrow> call_step c s = Some s' \<Longrightarrow> abandon_ok s'"
  by (erule call_step_cases) (auto simp: abandon_ok_def dest: move_no_ref)

lemma abandon_ok_client:
  assumes "abandon_ok s" "handles_ok s" "client_step s = Some s'" shows "abandon_ok s'"
  using assms(3)
proof (cases rule: client_step_cases)
  case (dtor_set j)
  then have "j < length (handles s)" "handles s ! j = Ref"
    using assms(2) by (simp_all add: handles_ok_def)
  then have "Ref \<in> set (handles s)" using nth_mem by fastforce
  then show ?thesis using assms(1) dtor_set by (simp add: abandon_ok_def)
next
  case (dtor_end j)
  then show ?thesis using assms(1) by (auto simp: abandon_ok_def release_def dest: in_update)
qed (use assms(1) in \<open>simp_all add: abandon_ok_def\<close>)

lemma abandon_ok_notify: "abandon_ok s \<Longrightarrow> notify_step k s = Some s' \<Longrightarrow> abandon_ok s'"
  by (erule notify_step_cases) (simp_all add: abandon_ok_def)

lemma abandon_ok_fail:
  assumes "closed_ok s" "handles_ok s" "thread_fail_step s = Some s'" shows "abandon_ok s'"
  using assms(3)
proof (cases rule: thread_fail_step_cases)
  case (fail i)
  then have h: "handles s = [Ref]" using assms(2) by (simp add: handles_ok_def)
  then have "\<not> isClosed s" using assms(1) fail(1) by (auto simp: closed_ok_def)
  then show ?thesis using h fail by (simp add: abandon_ok_def release_def)
qed

lemma abandon_ok_worker: "abandon_ok s \<Longrightarrow> worker_step i s = Some s' \<Longrightarrow> abandon_ok s'"
  by (erule worker_step_cases) (simp_all add: abandon_ok_def release_def)

lemma abandon_ok_spurious: "abandon_ok s \<Longrightarrow> spurious_step i s = Some s' \<Longrightarrow> abandon_ok s'"
  by (erule spurious_step_cases) (simp_all add: abandon_ok_def)

lemma abandon_ok_quit: "abandon_ok s \<Longrightarrow> process_exit s = Some s' \<Longrightarrow> abandon_ok s'"
  by (erule process_exit_cases) (simp add: abandon_ok_def)

lemma abandon_ok_step:
  "abandon_ok s \<Longrightarrow> closed_ok s \<Longrightarrow> handles_ok s \<Longrightarrow> step a s = Some s' \<Longrightarrow> abandon_ok s'"
  by (erule step_cases)
     (blast intro: abandon_ok_call abandon_ok_client abandon_ok_notify abandon_ok_fail abandon_ok_quit
        abandon_ok_worker abandon_ok_spurious)+

lemma abandon_ok_reachable: "reachable n s \<Longrightarrow> abandon_ok s"
  by (induction rule: reachable_induct)
     (auto intro: abandon_ok_start abandon_ok_step closed_ok_reachable handles_ok_reachable)

text \<open>The constructor's loop, run with no other thread moving.\<close>

lemma ctor_loop:
  assumes "cpc s = CCtor i" "fault s = None" "unat i + k = unat (nthreads s)"
  shows "run (replicate (Suc k) AClient) s =
           Some (s\<lparr> workers := workers s @ replicate k WLock, refs := refs s + k, cpc := CIdle \<rparr>)"
  using assms
proof (induction k arbitrary: s i)
  case 0
  then have "\<not> i < nthreads s" by (simp add: word_less_nat_alt)
  then show ?case using 0 by (simp add: step_def client_step_def)
next
  case (Suc k)
  then have lt: "i < nthreads s" by (simp add: word_less_nat_alt)
  let ?s1 = "s\<lparr> workers := workers s @ [WLock], refs := refs s + 1, cpc := CCtor (i + 1) \<rparr>"
  have st: "step AClient s = Some ?s1"
    using Suc.prems lt by (simp add: step_def client_step_def)
  have "run (replicate (Suc k) AClient) ?s1 =
          Some (?s1\<lparr> workers := workers ?s1 @ replicate k WLock, refs := refs ?s1 + k, cpc := CIdle \<rparr>)"
    by (rule Suc.IH[of _ "i + 1"]) (use Suc.prems lt in \<open>simp_all add: unat_inc\<close>)
  then show ?case using st by (simp add: replicate_app_Cons_same)
qed

section \<open>How a worker moves\<close>

lemma not_freed_worker:
  assumes "reachable n s" "i < length (workers s)" "workers s ! i \<noteq> WDone"
  shows "\<not> freed s"
  using ref_ok_reachable[OF assms(1)] live_pos[OF assms(2,3)] by (simp add: ref_ok_def)

lemma not_freed_client:
  assumes "reachable n s" "uses_pool (cpc s)"
  shows "\<not> freed s"
  using ref_ok_reachable[OF assms(1)] handles_ok_Ref[OF handles_ok_reachable[OF assms(1)] assms(2)]
  by (simp add: ref_ok_def)

lemma nth_notify_all:
  "i < length ws \<Longrightarrow> notify_all ws ! i = (if ws ! i = WWait then WWoken else ws ! i)"
  by (simp add: notify_all_def)

text \<open>Only a worker's own step, or a wake-up, changes its program counter.\<close>

lemma step_pc:
  assumes "step a s = Some s'" "i < length (workers s)" "workers s' ! i \<noteq> workers s ! i"
  shows "a = AWorker i \<or> (workers s ! i = WWait \<and> workers s' ! i = WWoken)"
  using assms(1)
proof (cases rule: step_cases)
  case (call c)
  from call(3) show ?thesis using assms(3) by (cases rule: call_step_cases) simp_all
next
  case client
  from client(3) show ?thesis using assms(2,3)
    by (cases rule: client_step_cases)
       (auto simp: nth_append nth_notify_all release_def split: if_splits)
next
  case (notify k)
  from notify(3) show ?thesis using assms(2,3)
    by (cases rule: notify_step_cases) (auto simp: nth_list_update split: if_splits)
next
  case fail
  from fail(3) show ?thesis using assms(2,3)
    by (cases rule: thread_fail_step_cases) (auto simp: release_def split: if_splits)
next
  case quit
  from quit(3) show ?thesis using assms(2,3)
    by (cases rule: process_exit_cases) (auto simp: release_def split: if_splits)
next
  case (worker k)
  from worker(3) show ?thesis using assms(2,3) worker(1)
    by (cases rule: worker_step_cases) (auto simp: nth_list_update release_def split: if_splits)
next
  case (spurious k)
  from spurious(3) show ?thesis using assms(2,3)
    by (cases rule: spurious_step_cases) (auto simp: nth_list_update split: if_splits)
qed

lemma step_length:
  assumes "step a s = Some s'"
  shows "length (workers s) \<le> length (workers s')"
  using assms
proof (cases rule: step_cases)
  case (call c)
  from call(3) show ?thesis by (cases rule: call_step_cases) simp_all
next
  case client
  from client(3) show ?thesis by (cases rule: client_step_cases) (simp_all add: release_def)
next
  case (notify k)
  from notify(3) show ?thesis by (cases rule: notify_step_cases) simp_all
next
  case fail
  from fail(3) show ?thesis
    by (cases rule: thread_fail_step_cases) (auto simp: release_def split: if_splits)
next
  case quit
  from quit(3) show ?thesis
    by (cases rule: process_exit_cases) (auto simp: release_def split: if_splits)
next
  case (worker k)
  from worker(3) show ?thesis by (cases rule: worker_step_cases) (simp_all add: release_def)
next
  case (spurious k)
  from spurious(3) show ?thesis by (cases rule: spurious_step_cases) simp_all
qed

lemma enter_run:
  assumes "step a s = Some s'" "i < length (workers s)"
    "workers s ! i \<noteq> WRun t" "workers s' ! i = WRun t"
  shows "a = AWorker i \<and> workers s ! i = WPopped t \<and> mtx s' = None"
proof -
  have a: "a = AWorker i" using step_pc[OF assms(1,2)] assms(3,4) by auto
  then have w: "worker_step i s = Some s'" using assms(1) by (simp add: step_def split: if_splits)
  from w show ?thesis using assms(2-4) a
    by (cases rule: worker_step_cases) (auto simp: release_def)
qed

lemma leave_run:
  assumes "step a s = Some s'" "i < length (workers s)"
    "workers s ! i = WRun t" "workers s' ! i \<noteq> WRun t"
  shows "a = AWorker i \<and> \<not> throws t \<and> workers s' ! i = WRelock \<and>
         executed s' = executed s @ [t] \<and> mtx s' = mtx s"
proof -
  have a: "a = AWorker i" using step_pc[OF assms(1,2)] assms(3,4) by auto
  then have w: "worker_step i s = Some s'" using assms(1) by (simp add: step_def split: if_splits)
  from w show ?thesis using assms(2-4) a
    by (cases rule: worker_step_cases) (auto simp: release_def)
qed

lemma acquire_from:
  assumes "step a s = Some s'" "mtx s \<noteq> Some (Worker i)" "mtx s' = Some (Worker i)"
  shows "a = AWorker i \<and> i < length (workers s) \<and>
         (workers s ! i = WLock \<or> workers s ! i = WRelock \<or> workers s ! i = WWoken) \<and>
         mtx s = None \<and> workers s' ! i = WTop"
  using assms(1)
proof (cases rule: step_cases)
  case (call c)
  from call(3) show ?thesis using assms(2,3) by (cases rule: call_step_cases) simp_all
next
  case client
  from client(3) show ?thesis using assms(2,3)
    by (cases rule: client_step_cases) (auto simp: release_def split: if_splits)
next
  case (notify k)
  from notify(3) show ?thesis using assms(2,3) by (cases rule: notify_step_cases) simp_all
next
  case fail
  from fail(3) show ?thesis using assms(2,3)
    by (cases rule: thread_fail_step_cases) (auto simp: release_def split: if_splits)
next
  case quit
  from quit(3) show ?thesis using assms(2,3)
    by (cases rule: process_exit_cases) (auto simp: release_def split: if_splits)
next
  case (worker k)
  from worker(3) show ?thesis using assms(2,3) worker(1)
    by (cases rule: worker_step_cases) (auto simp: release_def)
next
  case (spurious k)
  from spurious(3) show ?thesis using assms(2,3) by (cases rule: spurious_step_cases) simp_all
qed

text \<open>
  Claim C5. A worker never holds the mutex while it executes a task: a worker at the call
  \<^verbatim>\<open>task()\<close> does not hold \<^verbatim>\<open>mtx\<close>; it reaches the call only by
  \<^verbatim>\<open>locker.unlock()\<close>, which frees the mutex it held; it leaves the call only when the
  task returns, still without the mutex; and it takes the mutex only from the three
  places where the source locks it, none of which is inside the call.
\<close>

theorem task_runs_without_lock:
  assumes "reachable n s" "i < length (workers s)"
  shows "(workers s ! i = WRun t \<longrightarrow> mtx s \<noteq> Some (Worker i)) \<and>
    (\<forall>a s'. step a s = Some s' \<and> workers s ! i \<noteq> WRun t \<and> workers s' ! i = WRun t \<longrightarrow>
        a = AWorker i \<and> workers s ! i = WPopped t \<and> mtx s = Some (Worker i) \<and> mtx s' = None) \<and>
    (\<forall>a s'. step a s = Some s' \<and> workers s ! i = WRun t \<and> workers s' ! i \<noteq> WRun t \<longrightarrow>
        a = AWorker i \<and> workers s' ! i = WRelock \<and> executed s' = executed s @ [t] \<and>
        mtx s' \<noteq> Some (Worker i)) \<and>
    (\<forall>a s'. step a s = Some s' \<and> mtx s \<noteq> Some (Worker i) \<and> mtx s' = Some (Worker i) \<longrightarrow>
        a = AWorker i \<and>
        (workers s ! i = WLock \<or> workers s ! i = WRelock \<or> workers s ! i = WWoken))"
proof -
  note l = lock_okD(1)[OF lock_ok_reachable[OF assms(1)] assms(2)]
  have 1: "workers s ! i = WRun t \<longrightarrow> mtx s \<noteq> Some (Worker i)"
    using l by auto
  have 2: "a = AWorker i \<and> workers s ! i = WPopped t \<and> mtx s = Some (Worker i) \<and> mtx s' = None"
    if "step a s = Some s'" "workers s ! i \<noteq> WRun t" "workers s' ! i = WRun t" for a s'
    using enter_run[OF that(1) assms(2) that(2,3)] l by auto
  have 3: "a = AWorker i \<and> workers s' ! i = WRelock \<and> executed s' = executed s @ [t] \<and>
        mtx s' \<noteq> Some (Worker i)"
    if "step a s = Some s'" "workers s ! i = WRun t" "workers s' ! i \<noteq> WRun t" for a s'
    using leave_run[OF that(1) assms(2) that(2,3)] l that(2) by auto
  have 4: "a = AWorker i \<and>
        (workers s ! i = WLock \<or> workers s ! i = WRelock \<or> workers s ! i = WWoken)"
    if "step a s = Some s'" "mtx s \<noteq> Some (Worker i)" "mtx s' = Some (Worker i)" for a s'
    using acquire_from[OF that] by simp
  show ?thesis using 1 2 3 4 by blast
qed

section \<open>Concrete executions\<close>

lemma run_append:
  "run (as @ bs) s = (case run as s of None \<Rightarrow> None | Some s' \<Rightarrow> run bs s')"
  by (induction as arbitrary: s) (auto split: option.splits)

lemmas step_defs =
  step_def call_step_def client_step_def notify_step_def thread_fail_step_def process_exit_def
  worker_step_def
  spurious_step_def release_def notify_all_def

lemma run_sched_ctor:
  "run sched_ctor (start 2) =
     Some \<lparr> mtx = None, isClosed = False, tasks = [], refs = 3, freed = False,
            workers = [WLock, WLock], cpc = CIdle, nthreads = 2, handles = [Ref],
            fault = None, ctor_failed = False, submitted = [], dequeued = [], executed = [] \<rparr>"
  by (simp add: sched_ctor_def start_def step_defs)

lemma run_sched_run:
  "run sched_run (start 2) =
     Some \<lparr> mtx = None, isClosed = False, tasks = [], refs = 3, freed = False,
            workers = [WRun (Task 7 False), WLock], cpc = CIdle, nthreads = 2,
            handles = [Ref], fault = None, ctor_failed = False, submitted = [Task 7 False],
            dequeued = [Task 7 False], executed = [] \<rparr>"
  by (simp add: sched_run_def run_append run_sched_ctor step_defs)

lemma run_sched_shutdown:
  "run sched_shutdown (start 2) =
     Some \<lparr> mtx = None, isClosed = True, tasks = [], refs = 1, freed = False,
            workers = [WRun (Task 7 False), WDone], cpc = CIdle, nthreads = 2,
            handles = [Gone], fault = None, ctor_failed = False, submitted = [Task 7 False],
            dequeued = [Task 7 False], executed = [] \<rparr>"
  by (simp add: sched_shutdown_def run_append run_sched_run step_defs)

lemma run_sched_done:
  "run sched_done (start 2) =
     Some \<lparr> mtx = None, isClosed = True, tasks = [], refs = 0, freed = True,
            workers = [WDone, WDone], cpc = CIdle, nthreads = 2, handles = [Gone],
            fault = None, ctor_failed = False, submitted = [Task 7 False], dequeued = [Task 7 False],
            executed = [Task 7 False] \<rparr>"
  by (simp add: sched_done_def run_append run_sched_shutdown step_defs)

lemma run_sched_throw:
  "run sched_throw (start 2) =
     Some \<lparr> mtx = None, isClosed = False, tasks = [Task 2 False], refs = 3,
            freed = False, workers = [WRun (Task 1 True), WLock], cpc = CIdle,
            nthreads = 2, handles = [Ref], fault = None, ctor_failed = False,
            submitted = [Task 1 True, Task 2 False], dequeued = [Task 1 True],
            executed = [] \<rparr>"
  by (simp add: sched_throw_def run_append run_sched_ctor step_defs)

lemma run_sched_busy:
  "run sched_busy (start 2) =
     Some \<lparr> mtx = None, isClosed = False, tasks = [Task 8 False], refs = 3,
            freed = False, workers = [WRun (Task 7 False), WLock],
            cpc = CAddNotify 0, nthreads = 2, handles = [Ref], fault = None, ctor_failed = False,
            submitted = [Task 7 False, Task 8 False], dequeued = [Task 7 False],
            executed = [] \<rparr>"
  by (simp add: sched_busy_def run_append run_sched_run step_defs)

lemma run_sched_moved:
  "run sched_moved (start 2) =
     Some \<lparr> mtx = None, isClosed = False, tasks = [], refs = 3, freed = False,
            workers = [WLock, WLock], cpc = CIdle, nthreads = 2,
            handles = [Null, Ref, Null], fault = None, ctor_failed = False, submitted = [],
            dequeued = [], executed = [] \<rparr>"
  by (simp add: sched_moved_def run_append run_sched_ctor step_defs)

lemma run_sched_fail:
  "run sched_fail (start 2) =
     Some \<lparr> mtx = None, isClosed = False, tasks = [], refs = 1, freed = False,
            workers = [WLock], cpc = CIdle, nthreads = 2, handles = [Gone],
            fault = None, ctor_failed = True, submitted = [], dequeued = [],
            executed = [] \<rparr>"
  by (simp add: sched_fail_def start_def step_defs)

lemma run_sched_blocked:
  "run sched_blocked (start 2) =
     Some \<lparr> mtx = Some (Worker 0), isClosed = False, tasks = [], refs = 3,
            freed = False, workers = [WTop, WLock],
            cpc = CAddWant 0 (Task 7 False), nthreads = 2, handles = [Ref],
            fault = None, ctor_failed = False, submitted = [], dequeued = [],
            executed = [] \<rparr>"
  by (simp add: sched_blocked_def run_append run_sched_ctor step_defs)

lemma run_sched_null:
  "run sched_null (start 2) =
     Some \<lparr> mtx = None, isClosed = False, tasks = [], refs = 3, freed = False,
            workers = [WLock, WLock], cpc = CAddWant 0 (Task 7 False),
            nthreads = 2, handles = [Null, Ref, Null], fault = None,
            ctor_failed = False, submitted = [], dequeued = [], executed = [] \<rparr>"
  by (simp add: sched_null_def run_append run_sched_moved step_defs)

lemma run_sched_throw_closed:
  "run sched_throw_closed (start 2) =
     Some \<lparr> mtx = None, isClosed = True, tasks = [Task 2 False], refs = 2,
            freed = False, workers = [WRun (Task 1 True), WLock], cpc = CIdle,
            nthreads = 2, handles = [Gone], fault = None, ctor_failed = False,
            submitted = [Task 1 True, Task 2 False], dequeued = [Task 1 True],
            executed = [] \<rparr>"
  by (simp add: sched_throw_closed_def run_append run_sched_throw step_defs)

lemma run_sched_quit:
  "run sched_quit (start 2) =
     Some \<lparr> mtx = None, isClosed = True, tasks = [Task 7 False], refs = 2,
            freed = False, workers = [WLock, WLock], cpc = CIdle, nthreads = 2,
            handles = [Gone], fault = Some Exited, ctor_failed = False,
            submitted = [Task 7 False], dequeued = [], executed = [] \<rparr>"
  by (simp add: sched_quit_def run_append run_sched_ctor step_defs)

lemma reachable_run: "0 < n \<Longrightarrow> run as (start n) = Some s \<Longrightarrow> reachable n s"
  unfolding reachable_def ctor_start by blast

section \<open>The constructor: claims C9 and C8\<close>

lemma past_ctor_step:
  assumes "step a s = Some s'" "\<forall>i. cpc s \<noteq> CCtor i"
  shows "\<forall>i. cpc s' \<noteq> CCtor i"
  using assms(1)
proof (cases rule: step_cases)
  case (call c)
  from call(3) show ?thesis using assms(2) by (cases rule: call_step_cases) simp_all
next
  case client
  from client(3) show ?thesis using assms(2)
    by (cases rule: client_step_cases) (simp_all add: release_def)
next
  case (notify k)
  from notify(3) show ?thesis using assms(2) by (cases rule: notify_step_cases) simp_all
next
  case fail
  from fail(3) show ?thesis using assms(2)
    by (cases rule: thread_fail_step_cases) (auto simp: release_def split: if_splits)
next
  case quit
  from quit(3) show ?thesis using assms(2)
    by (cases rule: process_exit_cases) (auto simp: release_def split: if_splits)
next
  case (worker k)
  from worker(3) show ?thesis using assms(2)
    by (cases rule: worker_step_cases) (simp_all add: release_def)
next
  case (spurious k)
  from spurious(3) show ?thesis using assms(2) by (cases rule: spurious_step_cases) simp_all
qed

lemma past_ctor_keeps:
  assumes "step a s = Some s'" "\<forall>i. cpc s \<noteq> CCtor i"
  shows "length (workers s') = length (workers s) \<and> ctor_failed s' = ctor_failed s"
  using assms(1)
proof (cases rule: step_cases)
  case (call c)
  from call(3) show ?thesis by (cases rule: call_step_cases) simp_all
next
  case client
  from client(3) show ?thesis using assms(2)
    by (cases rule: client_step_cases) (simp_all add: release_def)
next
  case (notify k)
  from notify(3) show ?thesis by (cases rule: notify_step_cases) simp_all
next
  case fail
  from fail(3) show ?thesis using assms(2) by (cases rule: thread_fail_step_cases) simp_all
next
  case quit
  from quit(3) show ?thesis using assms(2) by (cases rule: process_exit_cases) simp_all
next
  case (worker k)
  from worker(3) show ?thesis by (cases rule: worker_step_cases) (simp_all add: release_def)
next
  case (spurious k)
  from spurious(3) show ?thesis by (cases rule: spurious_step_cases) simp_all
qed

text \<open>
  Claim C9. The constructor with a parameter asserts \<^verbatim>\<open>threadCount > 0\<close>: for every
  \<open>threadCount \<ge> 1\<close> the assertion holds and construction goes on (the loop is entered
  and starts the first thread), with \<open>threadCount = 0\<close>, and only then, the assertion
  fails; a call that gives no argument uses 8.
\<close>

theorem ctor_assertion:
  "(1 \<le> n \<longrightarrow>
      ThreadPool_ctor (Some n) = Inr (start n) \<and>
      step AClient (start n) =
        Some ((start n)\<lparr> workers := [WLock], refs := 2, cpc := CCtor 1 \<rparr>)) \<and>
   ThreadPool_ctor (Some 0) = Inl AssertionFailed \<and>
   (ThreadPool_ctor (Some n) = Inl AssertionFailed \<longrightarrow> n = 0) \<and>
   ThreadPool_ctor None = ThreadPool_ctor (Some 8)"
proof -
  have p: "0 < n" if "1 \<le> n"
    using that by (metis word_greater_zero_iff word_le_0_iff zero_neq_one)
  have z: "n = 0" if "\<not> 0 < n"
    using that by (simp add: word_greater_zero_iff)
  have 1: "ThreadPool_ctor (Some n) = Inr (start n)" if "1 \<le> n"
    using p[OF that] by (simp add: ThreadPool_ctor_def)
  have 2: "step AClient (start n) =
        Some ((start n)\<lparr> workers := [WLock], refs := 2, cpc := CCtor 1 \<rparr>)" if "1 \<le> n"
    using p[OF that] by (simp add: start_def step_def client_step_def)
  have 3: "ThreadPool_ctor (Some 0) = Inl AssertionFailed"
    by (simp add: ThreadPool_ctor_def)
  have 4: "n = 0" if "ThreadPool_ctor (Some n) = Inl AssertionFailed"
    using that z by (simp add: ThreadPool_ctor_def split: if_splits)
  have 5: "ThreadPool_ctor None = ThreadPool_ctor (Some 8)"
    by (simp add: ThreadPool_ctor_def)
  show ?thesis using 1 2 3 4 5 by blast
qed

text \<open>C9 at \<open>threadCount = 6\<close>, the value \<^verbatim>\<open>main\<close> passes, and at the default.\<close>

theorem ctor_assertion_witness:
  "(1::64 word) \<le> 6 \<and> ThreadPool_ctor (Some 6) = Inr (start 6) \<and>
   ThreadPool_ctor (Some 0) = Inl AssertionFailed \<and>
   ThreadPool_ctor None = Inr (start 8)"
  using ctor_assertion[of 6] ctor_assertion[of 8] by simp

text \<open>
  Claim C8, as amended. A constructor that is not left by an exception has started
  exactly \<open>threadCount\<close> worker threads: its loop, run with every start succeeding, ends
  with that many; in every execution the loop has started \<open>i\<close> threads when its
  variable is \<open>i\<close>; once such a constructor is over the pool has \<open>threadCount\<close> worker
  threads in every state. When the system refuses a thread the constructor is left with
  the fewer threads started so far, no handle and a pool that is never closed. In both
  cases no later step adds or removes a worker thread, and a worker thread ends only
  when the pool is closed.
\<close>

theorem pool_size_fixed:
  assumes "reachable n s"
  shows
    "run (replicate (Suc (unat n)) AClient) (start n) =
       Some ((start n)\<lparr> workers := replicate (unat n) WLock, refs := Suc (unat n),
                        cpc := CIdle \<rparr>) \<and>
     (\<forall>i. cpc s = CCtor i \<longrightarrow>
        length (workers s) = unat i \<and> i \<le> n \<and> \<not> ctor_failed s) \<and>
     ((\<forall>i. cpc s \<noteq> CCtor i) \<and> \<not> ctor_failed s \<longrightarrow> length (workers s) = unat n) \<and>
     (\<forall>i. cpc s = CCtor i \<and> i < n \<and> fault s = None \<longrightarrow>
        step AThreadFail s =
          Some (release (s\<lparr> handles := (handles s)[0 := Gone], cpc := CIdle,
                           ctor_failed := True \<rparr>))) \<and>
     (ctor_failed s \<longrightarrow>
        (\<forall>i. cpc s \<noteq> CCtor i) \<and> length (workers s) < unat n \<and>
        Ref \<notin> set (handles s) \<and> \<not> isClosed s) \<and>
     (\<forall>a s'. step a s = Some s' \<and> (\<forall>i. cpc s \<noteq> CCtor i) \<longrightarrow>
        (\<forall>i. cpc s' \<noteq> CCtor i) \<and> length (workers s') = length (workers s) \<and>
        ctor_failed s' = ctor_failed s) \<and>
     (\<not> isClosed s \<longrightarrow> WDone \<notin> set (workers s))"
proof -
  have a1: "run (replicate (Suc (unat n)) AClient) (start n) =
       Some ((start n)\<lparr> workers := replicate (unat n) WLock, refs := Suc (unat n),
                        cpc := CIdle \<rparr>)"
    using ctor_loop[of "start n" 0 "unat n"] by (simp add: start_def)
  note c = ctor_ok_reachable[OF assms, unfolded ctor_ok_def]
  have a2: "\<forall>i. cpc s = CCtor i \<longrightarrow>
        length (workers s) = unat i \<and> i \<le> n \<and> \<not> ctor_failed s"
    using c by blast
  have a3: "(\<forall>i. cpc s \<noteq> CCtor i) \<and> \<not> ctor_failed s \<longrightarrow> length (workers s) = unat n"
    using c by blast
  have a4: "\<forall>i. cpc s = CCtor i \<and> i < n \<and> fault s = None \<longrightarrow>
        step AThreadFail s =
          Some (release (s\<lparr> handles := (handles s)[0 := Gone], cpc := CIdle,
                           ctor_failed := True \<rparr>))"
    using c by (simp add: step_def thread_fail_step_def)
  have a5: "ctor_failed s \<longrightarrow>
        (\<forall>i. cpc s \<noteq> CCtor i) \<and> length (workers s) < unat n \<and>
        Ref \<notin> set (handles s) \<and> \<not> isClosed s"
    using c abandon_ok_reachable[OF assms] by (simp add: abandon_ok_def)
  have a6: "\<forall>a s'. step a s = Some s' \<and> (\<forall>i. cpc s \<noteq> CCtor i) \<longrightarrow>
        (\<forall>i. cpc s' \<noteq> CCtor i) \<and> length (workers s') = length (workers s) \<and>
        ctor_failed s' = ctor_failed s"
  proof (intro allI impI)
    fix a s' assume h: "step a s = Some s' \<and> (\<forall>i. cpc s \<noteq> CCtor i)"
    then have st: "step a s = Some s'" and pc: "\<forall>i. cpc s \<noteq> CCtor i" by blast+
    show "(\<forall>i. cpc s' \<noteq> CCtor i) \<and> length (workers s') = length (workers s) \<and>
        ctor_failed s' = ctor_failed s"
      using past_ctor_step[OF st pc] past_ctor_keeps[OF st pc] by blast
  qed
  have a7: "\<not> isClosed s \<longrightarrow> WDone \<notin> set (workers s)"
    using closed_ok_reachable[OF assms] by (simp add: closed_ok_def)
  show ?thesis using a1 a2 a3 a4 a5 a6 a7 by (intro conjI)
qed

text \<open>
  C8 as amended, on an execution with two threads, one of them running a task, and on
  the execution in which the second thread is refused.
\<close>

theorem pool_size_fixed_witness:
  "reachable 2 (the (run sched_run (start 2))) \<and>
   length (workers (the (run sched_run (start 2)))) = 2 \<and>
   reachable 2 (the (run sched_fail (start 2))) \<and>
   length (workers (the (run sched_fail (start 2)))) < unat (2::64 word) \<and>
   \<not> isClosed (the (run sched_fail (start 2)))"
proof -
  have r: "reachable 2 (the (run sched_run (start 2)))"
    by (rule reachable_run[of 2 sched_run]) (simp_all add: run_sched_run)
  have 2: "length (workers (the (run sched_run (start 2)))) = 2"
    using pool_size_fixed[OF r, THEN conjunct2, THEN conjunct2, THEN conjunct1]
    by (simp add: run_sched_run)
  have r': "reachable 2 (the (run sched_fail (start 2)))"
    by (rule reachable_run[of 2 sched_fail]) (simp_all add: run_sched_fail)
  have 3: "length (workers (the (run sched_fail (start 2)))) < unat (2::64 word) \<and>
   \<not> isClosed (the (run sched_fail (start 2)))"
    using pool_size_fixed[OF r', THEN conjunct2, THEN conjunct2, THEN conjunct2, THEN conjunct2,
        THEN conjunct1]
    by (simp add: run_sched_fail)
  show ?thesis using r 2 r' 3 by blast
qed

text \<open>
  Claim C8 as stated fails. The constructor is called with \<open>threadCount = 2\<close>; the first
  thread is started and the second is refused: the constructor is left with one worker
  thread, not two.
\<close>

theorem thread_start_refused_counterexample:
  "ThreadPool_ctor (Some 2) = Inr (start 2) \<and>
   run sched_fail (start 2) =
     Some \<lparr> mtx = None, isClosed = False, tasks = [], refs = 1, freed = False,
            workers = [WLock], cpc = CIdle, nthreads = 2, handles = [Gone],
            fault = None, ctor_failed = True, submitted = [], dequeued = [],
            executed = [] \<rparr>"
  by (simp add: run_sched_fail ThreadPool_ctor_def)

section \<open>The lock, the shared state and null handles: claims C5, C7 and C10\<close>

text \<open>C5 on an execution in which worker 0 is inside the call of task 7.\<close>

theorem task_runs_without_lock_witness:
  "reachable 2 (the (run sched_run (start 2))) \<and>
   0 < length (workers (the (run sched_run (start 2)))) \<and>
   workers (the (run sched_run (start 2))) ! 0 = WRun (Task 7 False) \<and>
   mtx (the (run sched_run (start 2))) \<noteq> Some (Worker 0)"
proof -
  have r: "reachable 2 (the (run sched_run (start 2)))"
    by (rule reachable_run[of 2 sched_run]) (simp_all add: run_sched_run)
  have l: "0 < length (workers (the (run sched_run (start 2))))"
    and w: "workers (the (run sched_run (start 2))) ! 0 = WRun (Task 7 False)"
    by (simp_all add: run_sched_run)
  have "mtx (the (run sched_run (start 2))) \<noteq> Some (Worker 0)"
    using task_runs_without_lock[OF r l, of "Task 7 False", THEN conjunct1] w by blast
  then show ?thesis using r l w by blast
qed

lemma worker_ignores_handles:
  "worker_step i (s\<lparr> handles := h \<rparr>) =
     map_option (\<lambda>s'. s'\<lparr> handles := h \<rparr>) (worker_step i s)"
proof (cases "i < length (workers s)")
  case False
  then show ?thesis by (simp add: worker_step_def)
next
  case True
  show ?thesis
  proof (cases "workers s ! i")
    case WTop
    then show ?thesis using True
      by (cases "tasks s") (simp_all add: worker_step_def release_def)
  qed (use True in \<open>simp_all add: worker_step_def\<close>)
qed

text \<open>
  Claim C7. The use count of the \<^verbatim>\<open>Pool\<close> is the number of handles that refer to it
  plus the number of worker threads that have not ended, and the \<^verbatim>\<open>Pool\<close> is deleted
  exactly when the count is 0. So while any worker has not ended the \<^verbatim>\<open>Pool\<close> is
  alive, whatever happened to the handle; no execution accesses a deleted \<^verbatim>\<open>Pool\<close>;
  and a task in flight completes when its worker is scheduled. A worker holds no pointer
  back to a handle object: its step is the same whatever the handles are.
\<close>

theorem pool_outlives_handle:
  assumes "reachable n s"
  shows
    "refs s = count_list (handles s) Ref + live (workers s) \<and>
     (freed s \<longleftrightarrow> refs s = 0) \<and>
     fault s \<noteq> Some UseAfterFree \<and>
     (\<forall>i < length (workers s). workers s ! i \<noteq> WDone \<longrightarrow> \<not> freed s) \<and>
     (\<forall>i < length (workers s). \<forall>t.
        workers s ! i = WRun t \<and> \<not> throws t \<and> fault s = None \<longrightarrow>
        step (AWorker i) s =
          Some (s\<lparr> executed := executed s @ [t], workers := (workers s)[i := WRelock] \<rparr>)) \<and>
     (\<forall>i h. worker_step i (s\<lparr> handles := h \<rparr>) =
        map_option (\<lambda>s'. s'\<lparr> handles := h \<rparr>) (worker_step i s))"
proof -
  note r = ref_ok_reachable[OF assms, unfolded ref_ok_def]
  have 3: "fault s \<noteq> Some UseAfterFree"
    using fault_ok_reachable[OF assms] by (simp add: fault_ok_def)
  have 4: "\<not> freed s" if "i < length (workers s)" "workers s ! i \<noteq> WDone" for i
    using not_freed_worker[OF assms that] .
  have 5: "step (AWorker i) s =
          Some (s\<lparr> executed := executed s @ [t], workers := (workers s)[i := WRelock] \<rparr>)"
    if "i < length (workers s)" "workers s ! i = WRun t \<and> \<not> throws t \<and> fault s = None" for i t
    using that by (simp add: step_def worker_step_def)
  have a4: "\<forall>i < length (workers s). workers s ! i \<noteq> WDone \<longrightarrow> \<not> freed s"
    using 4 by blast
  have a5: "\<forall>i < length (workers s). \<forall>t.
        workers s ! i = WRun t \<and> \<not> throws t \<and> fault s = None \<longrightarrow>
        step (AWorker i) s =
          Some (s\<lparr> executed := executed s @ [t], workers := (workers s)[i := WRelock] \<rparr>)"
    using 5 by blast
  have a6: "\<forall>i h. worker_step i (s\<lparr> handles := h \<rparr>) =
        map_option (\<lambda>s'. s'\<lparr> handles := h \<rparr>) (worker_step i s)"
    using worker_ignores_handles by blast
  show ?thesis using r 3 a4 a5 a6 by (intro conjI) blast+
qed

text \<open>
  C7 on an execution in which the handle has been destroyed while worker 0 is inside a
  task: the \<^verbatim>\<open>Pool\<close> is alive, the task completes, and the last worker to end deletes
  the \<^verbatim>\<open>Pool\<close>.
\<close>

theorem pool_outlives_handle_witness:
  "reachable 2 (the (run sched_shutdown (start 2))) \<and>
   handles (the (run sched_shutdown (start 2))) = [Gone] \<and>
   workers (the (run sched_shutdown (start 2))) = [WRun (Task 7 False), WDone] \<and>
   refs (the (run sched_shutdown (start 2))) = 1 \<and>
   \<not> freed (the (run sched_shutdown (start 2))) \<and>
   executed (the (run (sched_shutdown @ [AWorker 0]) (start 2))) = [Task 7 False] \<and>
   freed (the (run sched_done (start 2)))"
proof -
  have r: "reachable 2 (the (run sched_shutdown (start 2)))"
    by (rule reachable_run[of 2 sched_shutdown]) (simp_all add: run_sched_shutdown)
  have 1: "\<not> freed (the (run sched_shutdown (start 2)))"
    using pool_outlives_handle[OF r, THEN conjunct2, THEN conjunct2, THEN conjunct2,
        THEN conjunct1, rule_format, of 0]
    by (simp add: run_sched_shutdown)
  have 2: "handles (the (run sched_shutdown (start 2))) = [Gone]"
    "workers (the (run sched_shutdown (start 2))) = [WRun (Task 7 False), WDone]"
    "refs (the (run sched_shutdown (start 2))) = 1"
    "freed (the (run sched_done (start 2)))"
    by (simp_all add: run_sched_shutdown run_sched_done)
  have 3: "executed (the (run (sched_shutdown @ [AWorker 0]) (start 2))) = [Task 7 False]"
    by (simp add: run_append run_sched_shutdown step_defs)
  show ?thesis using r 1 2 3 by blast
qed

text \<open>
  Claim C10. The destructor of a handle whose \<^verbatim>\<open>pool_\<close> is null changes nothing but the
  handle itself: mutex, closed flag, queue, workers and use count stay as they are. The
  test \<^verbatim>\<open>if(static_cast<bool>(pool_))\<close> sends only a handle that refers to the
  \<^verbatim>\<open>Pool\<close> to the statements that lock, set \<^verbatim>\<open>isClosed\<close> and notify, and the flag
  is set by no other step.
\<close>

theorem dtor_null_handle:
  assumes "reachable n s"
  shows
    "(\<forall>j < length (handles s).
        cpc s = CIdle \<and> fault s = None \<and> handles s ! j = Null \<longrightarrow>
        run [ACall (Destroy j), AClient, AClient] s =
          Some (s\<lparr> handles := (handles s)[j := Gone] \<rparr>)) \<and>
     (\<forall>j. cpc s = CDtorTest j \<and> fault s = None \<longrightarrow>
        step AClient s =
          Some (s\<lparr> cpc := (if handles s ! j = Ref then CDtorWant j else CDtorEnd j) \<rparr>)) \<and>
     (\<forall>j. cpc s = CDtorWant j \<or> cpc s = CDtorLocked j \<or> cpc s = CDtorSet j \<or>
          cpc s = CDtorNotify j \<longrightarrow> j < length (handles s) \<and> handles s ! j = Ref) \<and>
     (\<forall>a s'. step a s = Some s' \<and> \<not> isClosed s \<and> isClosed s' \<longrightarrow>
        a = AClient \<and>
        (\<exists>j. cpc s = CDtorLocked j \<and> j < length (handles s) \<and> handles s ! j = Ref))"
proof -
  note h = handles_ok_reachable[OF assms, unfolded handles_ok_def]
  have 1: "run [ACall (Destroy j), AClient, AClient] s =
          Some (s\<lparr> handles := (handles s)[j := Gone] \<rparr>)"
    if "j < length (handles s)" "cpc s = CIdle \<and> fault s = None \<and> handles s ! j = Null" for j
    using that by (simp add: step_defs)
  have 2: "step AClient s =
          Some (s\<lparr> cpc := (if handles s ! j = Ref then CDtorWant j else CDtorEnd j) \<rparr>)"
    if "cpc s = CDtorTest j \<and> fault s = None" for j
    using that by (simp add: step_def client_step_def)
  have 3: "j < length (handles s) \<and> handles s ! j = Ref"
    if "cpc s = CDtorWant j \<or> cpc s = CDtorLocked j \<or> cpc s = CDtorSet j \<or>
          cpc s = CDtorNotify j" for j
    using that h by auto
  have 4: "a = AClient \<and>
        (\<exists>j. cpc s = CDtorLocked j \<and> j < length (handles s) \<and> handles s ! j = Ref)"
    if s: "step a s = Some s'" and c: "\<not> isClosed s \<and> isClosed s'" for a s'
    using s
  proof (cases rule: step_cases)
    case (call c)
    from call(3) show ?thesis using c by (cases rule: call_step_cases) simp_all
  next
    case client
    from client(3) show ?thesis using c 3 client(1)
      by (cases rule: client_step_cases) (auto simp: release_def split: if_splits)
  next
    case (notify k)
    from notify(3) show ?thesis using c by (cases rule: notify_step_cases) simp_all
  next
    case fail
    from fail(3) show ?thesis using c
      by (cases rule: thread_fail_step_cases) (auto simp: release_def split: if_splits)
  next
    case quit
    from quit(3) show ?thesis using c
      by (cases rule: process_exit_cases) (auto simp: release_def split: if_splits)
  next
    case (worker k)
    from worker(3) show ?thesis using c
      by (cases rule: worker_step_cases) (simp_all add: release_def)
  next
    case (spurious k)
    from spurious(3) show ?thesis using c by (cases rule: spurious_step_cases) simp_all
  qed
  show ?thesis using 1 2 3 4 by blast
qed

text \<open>C10 for a moved-from handle (index 0) and a default-constructed one (index 2).\<close>

theorem dtor_null_handle_witness:
  "reachable 2 (the (run sched_moved (start 2))) \<and>
   handles (the (run sched_moved (start 2))) = [Null, Ref, Null] \<and>
   run [ACall (Destroy 0), AClient, AClient] (the (run sched_moved (start 2))) =
     Some ((the (run sched_moved (start 2)))\<lparr> handles := [Gone, Ref, Null] \<rparr>) \<and>
   run [ACall (Destroy 2), AClient, AClient] (the (run sched_moved (start 2))) =
     Some ((the (run sched_moved (start 2)))\<lparr> handles := [Null, Ref, Gone] \<rparr>)"
proof -
  have r: "reachable 2 (the (run sched_moved (start 2)))"
    by (rule reachable_run[of 2 sched_moved]) (simp_all add: run_sched_moved)
  note t = dtor_null_handle[OF r, THEN conjunct1, rule_format]
  have 0: "run [ACall (Destroy 0), AClient, AClient] (the (run sched_moved (start 2))) =
     Some ((the (run sched_moved (start 2)))\<lparr> handles := [Gone, Ref, Null] \<rparr>)"
    using t[of 0] by (simp add: run_sched_moved)
  have 2: "run [ACall (Destroy 2), AClient, AClient] (the (run sched_moved (start 2))) =
     Some ((the (run sched_moved (start 2)))\<lparr> handles := [Null, Ref, Gone] \<rparr>)"
    using t[of 2] by (simp add: run_sched_moved)
  have h: "handles (the (run sched_moved (start 2))) = [Null, Ref, Null]"
    by (simp add: run_sched_moved)
  show ?thesis using r h 0 2 by blast
qed

section \<open>Worker exit and throwing tasks: claims C1 and C3\<close>

lemma flying_all_done: "\<forall>p \<in> set ws. p = WDone \<Longrightarrow> flying ws = {#}"
  unfolding flying_def by (induction ws) auto

lemma exit_step:
  assumes "step a s = Some s'" "i < length (workers s)"
    "workers s ! i \<noteq> WDone" "workers s' ! i = WDone"
  shows "a = AWorker i \<and> workers s ! i = WTop \<and> tasks s = [] \<and> isClosed s \<and>
         mtx s' = None"
proof -
  have a: "a = AWorker i" using step_pc[OF assms(1,2)] assms(3,4) by auto
  then have w: "worker_step i s = Some s'" using assms(1) by (simp add: step_def split: if_splits)
  from w show ?thesis using assms(2-4) a
    by (cases rule: worker_step_cases) (auto simp: release_def)
qed

lemma closed_no_submit:
  assumes "reachable n s" "isClosed s" "step a s = Some s'"
  shows "submitted s' = submitted s"
  using assms(3)
proof (cases rule: step_cases)
  case (call c)
  from call(3) show ?thesis by (cases rule: call_step_cases) simp_all
next
  case client
  from client(3) show ?thesis
  proof (cases rule: client_step_cases)
    case (add_push j t)
    then have "\<not> isClosed s"
      using open_uses_pool[OF closed_ok_reachable[OF assms(1)] handles_ok_reachable[OF assms(1)]]
      by simp
    then show ?thesis using assms(2) by blast
  qed (simp_all add: release_def)
next
  case (notify k)
  from notify(3) show ?thesis by (cases rule: notify_step_cases) simp_all
next
  case fail
  from fail(3) show ?thesis
    by (cases rule: thread_fail_step_cases) (auto simp: release_def split: if_splits)
next
  case quit
  from quit(3) show ?thesis
    by (cases rule: process_exit_cases) (auto simp: release_def split: if_splits)
next
  case (worker k)
  from worker(3) show ?thesis by (cases rule: worker_step_cases) (simp_all add: release_def)
next
  case (spurious k)
  from spurious(3) show ?thesis by (cases rule: spurious_step_cases) simp_all
qed

text \<open>
  Claim C1, as amended. A worker thread ends only by its own step from the head of the
  loop, in a state where the queue is empty and the pool is closed. Hence, as soon as
  one worker has ended, every submitted task has been taken off the queue; and when all
  workers have ended, every submitted task has been executed. Every task is submitted
  before shutdown: once the pool is closed no step submits one.
\<close>

theorem drained_before_exit:
  assumes "reachable n s"
  shows
    "(\<forall>a s' i. step a s = Some s' \<and> i < length (workers s) \<and>
        workers s ! i \<noteq> WDone \<and> workers s' ! i = WDone \<longrightarrow>
        a = AWorker i \<and> workers s ! i = WTop \<and> tasks s = [] \<and> isClosed s) \<and>
     (WDone \<in> set (workers s) \<longrightarrow>
        isClosed s \<and> tasks s = [] \<and> dequeued s = submitted s) \<and>
     (workers s \<noteq> [] \<and> (\<forall>p \<in> set (workers s). p = WDone) \<longrightarrow>
        mset (executed s) = mset (submitted s)) \<and>
     (\<forall>a s'. isClosed s \<and> step a s = Some s' \<longrightarrow> submitted s' = submitted s)"
proof -
  note c = closed_ok_reachable[OF assms, unfolded closed_ok_def]
  note l = logs_ok_reachable[OF assms, unfolded logs_ok_def]
  have 1: "a = AWorker i \<and> workers s ! i = WTop \<and> tasks s = [] \<and> isClosed s"
    if "step a s = Some s' \<and> i < length (workers s) \<and>
        workers s ! i \<noteq> WDone \<and> workers s' ! i = WDone" for a s' i
    using exit_step[of a s s' i] that by blast
  have 2: "isClosed s \<and> tasks s = [] \<and> dequeued s = submitted s"
    if "WDone \<in> set (workers s)"
    using that c l by auto
  have 3: "mset (executed s) = mset (submitted s)"
    if "workers s \<noteq> [] \<and> (\<forall>p \<in> set (workers s). p = WDone)"
  proof -
    have "WDone \<in> set (workers s)" using that by (cases "workers s") auto
    then have "dequeued s = submitted s" using 2 by blast
    moreover have "flying (workers s) = {#}" using that flying_all_done by blast
    ultimately show ?thesis using l by simp
  qed
  have 4: "submitted s' = submitted s" if "isClosed s \<and> step a s = Some s'" for a s'
    using closed_no_submit[OF assms] that by blast
  show ?thesis using 1 2 3 4 by blast
qed

text \<open>C1 as amended, on an execution that ends with both workers gone.\<close>

theorem drained_before_exit_witness:
  "reachable 2 (the (run sched_done (start 2))) \<and>
   workers (the (run sched_done (start 2))) = [WDone, WDone] \<and>
   tasks (the (run sched_done (start 2))) = [] \<and>
   isClosed (the (run sched_done (start 2))) \<and>
   dequeued (the (run sched_done (start 2))) = submitted (the (run sched_done (start 2))) \<and>
   mset (executed (the (run sched_done (start 2)))) =
     mset (submitted (the (run sched_done (start 2))))"
proof -
  have r: "reachable 2 (the (run sched_done (start 2)))"
    by (rule reachable_run[of 2 sched_done]) (simp_all add: run_sched_done)
  have w: "workers (the (run sched_done (start 2))) = [WDone, WDone]"
    by (simp add: run_sched_done)
  have 2: "isClosed (the (run sched_done (start 2))) \<and> tasks (the (run sched_done (start 2))) = [] \<and>
     dequeued (the (run sched_done (start 2))) = submitted (the (run sched_done (start 2)))"
    using drained_before_exit[OF r, THEN conjunct2, THEN conjunct1] w by simp
  have 3: "mset (executed (the (run sched_done (start 2)))) =
     mset (submitted (the (run sched_done (start 2))))"
    using drained_before_exit[OF r, THEN conjunct2, THEN conjunct2, THEN conjunct1] w by simp
  show ?thesis using r w 2 3 by blast
qed

text \<open>
  Claim C1 as stated fails. Task 7 is submitted before the destructor runs and worker 0
  takes it; the destructor then closes the pool, and worker 1 finds the queue empty and
  the pool closed, so it ends, while the call of task 7 has not returned.
\<close>

theorem worker_exits_before_task_runs_counterexample:
  "ThreadPool_ctor (Some 2) = Inr (start 2) \<and>
   run sched_shutdown (start 2) =
     Some \<lparr> mtx = None, isClosed = True, tasks = [], refs = 1, freed = False,
            workers = [WRun (Task 7 False), WDone], cpc = CIdle, nthreads = 2,
            handles = [Gone], fault = None, ctor_failed = False, submitted = [Task 7 False],
            dequeued = [Task 7 False], executed = [] \<rparr>"
  by (simp add: run_sched_shutdown ThreadPool_ctor_def)

text \<open>
  Claim C3, as amended. When the task a worker calls throws, that worker does not hold
  the mutex, so the mutex is not left locked by it. Nothing in the loop catches the
  exception: it leaves the function of the thread, the process is terminated, and no
  thread takes another step.
\<close>

theorem throwing_task_terminates:
  assumes "reachable n s" "i < length (workers s)" "workers s ! i = WRun t" "throws t"
    "fault s = None"
  shows "mtx s \<noteq> Some (Worker i) \<and>
         step (AWorker i) s = Some (s\<lparr> fault := Some Terminated \<rparr>) \<and>
         (\<forall>a. step a (s\<lparr> fault := Some Terminated \<rparr>) = None)"
proof -
  have 1: "mtx s \<noteq> Some (Worker i)"
    using lock_okD(1)[OF lock_ok_reachable[OF assms(1)] assms(2)] assms(3) by auto
  have 2: "step (AWorker i) s = Some (s\<lparr> fault := Some Terminated \<rparr>)"
    using assms(2-5) by (simp add: step_def worker_step_def)
  have 3: "step a (s\<lparr> fault := Some Terminated \<rparr>) = None" for a
    by (simp add: step_def)
  show ?thesis using 1 2 3 by blast
qed

text \<open>C3 as amended, on an execution in which worker 0 calls a task that throws.\<close>

theorem throwing_task_terminates_witness:
  "reachable 2 (the (run sched_throw (start 2))) \<and>
   workers (the (run sched_throw (start 2))) ! 0 = WRun (Task 1 True) \<and>
   mtx (the (run sched_throw (start 2))) \<noteq> Some (Worker 0) \<and>
   step (AWorker 0) (the (run sched_throw (start 2))) =
     Some ((the (run sched_throw (start 2)))\<lparr> fault := Some Terminated \<rparr>)"
proof -
  have r: "reachable 2 (the (run sched_throw (start 2)))"
    by (rule reachable_run[of 2 sched_throw]) (simp_all add: run_sched_throw)
  have h: "0 < length (workers (the (run sched_throw (start 2))))"
    "workers (the (run sched_throw (start 2))) ! 0 = WRun (Task 1 True)"
    "throws (Task 1 True)" "fault (the (run sched_throw (start 2))) = None"
    by (simp_all add: run_sched_throw)
  note t = throwing_task_terminates[OF r h]
  show ?thesis using r h(2) t[THEN conjunct1] t[THEN conjunct2, THEN conjunct1] by blast
qed

text \<open>
  Claim C3 as stated fails. After task 1 has thrown, task 2 is still in the queue, and
  neither a worker nor a further \<^verbatim>\<open>AddTask\<close> can move: the failure is not confined to
  the task.
\<close>

theorem throwing_task_stops_pool_counterexample:
  "run (sched_throw @ [AWorker 0]) (start 2) =
     Some \<lparr> mtx = None, isClosed = False, tasks = [Task 2 False], refs = 3,
            freed = False, workers = [WRun (Task 1 True), WLock], cpc = CIdle,
            nthreads = 2, handles = [Ref], fault = Some Terminated, ctor_failed = False,
            submitted = [Task 1 True, Task 2 False], dequeued = [Task 1 True],
            executed = [] \<rparr> \<and>
   step (AWorker 1) (the (run (sched_throw @ [AWorker 0]) (start 2))) = None \<and>
   step (AWorker 0) (the (run (sched_throw @ [AWorker 0]) (start 2))) = None \<and>
   step (ACall (AddTask 0 (Task 3 False))) (the (run (sched_throw @ [AWorker 0]) (start 2))) = None"
proof -
  have 1: "run (sched_throw @ [AWorker 0]) (start 2) =
     Some \<lparr> mtx = None, isClosed = False, tasks = [Task 2 False], refs = 3,
            freed = False, workers = [WRun (Task 1 True), WLock], cpc = CIdle,
            nthreads = 2, handles = [Ref], fault = Some Terminated, ctor_failed = False,
            submitted = [Task 1 True, Task 2 False], dequeued = [Task 1 True],
            executed = [] \<rparr>"
    by (simp add: run_append run_sched_throw step_defs)
  show ?thesis unfolding 1 by (simp add: step_def)
qed

section \<open>Submitting a task: claim C4\<close>

lemma run_sched_notify:
  "run sched_notify (start 2) =
     Some \<lparr> mtx = None, isClosed = False, tasks = [Task 7 False], refs = 3, freed = False,
            workers = [WWait, WLock], cpc = CAddNotify 0, nthreads = 2,
            handles = [Ref], fault = None, ctor_failed = False, submitted = [Task 7 False],
            dequeued = [], executed = [] \<rparr>"
  by (simp add: sched_notify_def run_append run_sched_ctor step_defs)

text \<open>
  Claim C4, as amended. On a handle that refers to the \<^verbatim>\<open>Pool\<close>, \<^verbatim>\<open>AddTask\<close> can
  always be started; its \<^verbatim>\<open>std::lock_guard\<close> is taken exactly when the mutex is free,
  so the caller is blocked while, and only while, another thread holds the mutex; the
  task is appended at the back of the queue while the client holds the mutex; the mutex
  is released; and \<^verbatim>\<open>notify_one\<close> then wakes exactly one of the workers that wait on
  the condition variable when there is one, and nobody when there is none. No other
  step of \<^verbatim>\<open>AddTask\<close> waits for anything. A worker that holds the mutex is at the
  head of its loop or between \<^verbatim>\<open>pop\<close> and \<^verbatim>\<open>unlock\<close>, never inside the call of a task
  and never in a wait; how long it holds the mutex is not bounded (the local \<^verbatim>\<open>task\<close>
  object is destroyed with the mutex held). On a handle whose \<^verbatim>\<open>pool_\<close> is null (default constructed or
  moved from) \<^verbatim>\<open>AddTask\<close> dereferences the null pointer: nothing is appended and
  nobody is woken.
\<close>

theorem AddTask_appends_and_notifies:
  assumes "reachable n s" "fault s = None"
  shows
    "(\<forall>j t. cpc s = CIdle \<and> j < length (handles s) \<and> handles s ! j = Ref \<longrightarrow>
        step (ACall (AddTask j t)) s = Some (s\<lparr> cpc := CAddWant j t \<rparr>)) \<and>
     (\<forall>j t. cpc s = CAddWant j t \<and> handles s ! j = Ref \<longrightarrow>
        mtx s \<noteq> Some Client \<and>
        step AClient s =
          (if mtx s = None then Some (s\<lparr> mtx := Some Client, cpc := CAddLocked j t \<rparr>)
           else None)) \<and>
     (\<forall>j t. cpc s = CAddLocked j t \<longrightarrow>
        mtx s = Some Client \<and>
        step AClient s =
          Some (s\<lparr> tasks := tasks s @ [t], submitted := submitted s @ [t],
                   cpc := CAddPushed j \<rparr>)) \<and>
     (\<forall>j. cpc s = CAddPushed j \<longrightarrow>
        mtx s = Some Client \<and>
        step AClient s = Some (s\<lparr> mtx := None, cpc := CAddNotify j \<rparr>)) \<and>
     (\<forall>j. cpc s = CAddNotify j \<longrightarrow>
        step AClient s = (if WWait \<in> set (workers s) then None else Some (s\<lparr> cpc := CIdle \<rparr>)) \<and>
        (\<forall>k. step (ANotify k) s =
           (if k < length (workers s) \<and> workers s ! k = WWait
            then Some (s\<lparr> workers := (workers s)[k := WWoken], cpc := CIdle \<rparr>)
            else None)) \<and>
        (\<forall>k s'. step (ANotify k) s = Some s' \<longrightarrow>
           count_list (workers s') WWait + 1 = count_list (workers s) WWait)) \<and>
     (\<forall>i. mtx s = Some (Worker i) \<longrightarrow>
        i < length (workers s) \<and>
        (workers s ! i = WTop \<or> (\<exists>t. workers s ! i = WPopped t))) \<and>
     (\<forall>j t. cpc s = CAddWant j t \<and> handles s ! j \<noteq> Ref \<longrightarrow>
        step AClient s = Some (s\<lparr> fault := Some NullDeref \<rparr>))"
proof -
  note lk = lock_ok_reachable[OF assms(1)]
  note hd = handles_ok_reachable[OF assms(1)]
  have a1: "\<forall>j t. cpc s = CIdle \<and> j < length (handles s) \<and> handles s ! j = Ref \<longrightarrow>
        step (ACall (AddTask j t)) s = Some (s\<lparr> cpc := CAddWant j t \<rparr>)"
    using assms(2) by (simp add: step_def call_step_def)
  have a2: "\<forall>j t. cpc s = CAddWant j t \<and> handles s ! j = Ref \<longrightarrow>
        mtx s \<noteq> Some Client \<and>
        step AClient s =
          (if mtx s = None then Some (s\<lparr> mtx := Some Client, cpc := CAddLocked j t \<rparr>)
           else None)"
  proof (intro allI impI)
    fix j t assume c: "cpc s = CAddWant j t \<and> handles s ! j = Ref"
    have "j < length (handles s)" using hd c by (simp add: handles_ok_def)
    then have "0 < count_list (handles s) Ref" using c count_list_pos by fastforce
    then have "\<not> freed s" using ref_ok_reachable[OF assms(1)] by (simp add: ref_ok_def)
    moreover have "mtx s \<noteq> Some Client" using lock_okD(2)[OF lk] c by auto
    ultimately show "mtx s \<noteq> Some Client \<and>
        step AClient s =
          (if mtx s = None then Some (s\<lparr> mtx := Some Client, cpc := CAddLocked j t \<rparr>)
           else None)"
      using c assms(2) by (simp add: step_def client_step_def)
  qed
  have a3: "\<forall>j t. cpc s = CAddLocked j t \<longrightarrow>
        mtx s = Some Client \<and>
        step AClient s =
          Some (s\<lparr> tasks := tasks s @ [t], submitted := submitted s @ [t],
                   cpc := CAddPushed j \<rparr>)"
  proof (intro allI impI)
    fix j t assume c: "cpc s = CAddLocked j t"
    show "mtx s = Some Client \<and>
        step AClient s =
          Some (s\<lparr> tasks := tasks s @ [t], submitted := submitted s @ [t],
                   cpc := CAddPushed j \<rparr>)"
      using lock_okD(2)[OF lk] not_freed_client[OF assms(1)] c assms(2)
      by (simp add: step_def client_step_def)
  qed
  have a4: "\<forall>j. cpc s = CAddPushed j \<longrightarrow>
        mtx s = Some Client \<and>
        step AClient s = Some (s\<lparr> mtx := None, cpc := CAddNotify j \<rparr>)"
  proof (intro allI impI)
    fix j assume c: "cpc s = CAddPushed j"
    show "mtx s = Some Client \<and>
        step AClient s = Some (s\<lparr> mtx := None, cpc := CAddNotify j \<rparr>)"
      using lock_okD(2)[OF lk] not_freed_client[OF assms(1)] c assms(2)
      by (simp add: step_def client_step_def)
  qed
  have a5: "\<forall>j. cpc s = CAddNotify j \<longrightarrow>
        step AClient s = (if WWait \<in> set (workers s) then None else Some (s\<lparr> cpc := CIdle \<rparr>)) \<and>
        (\<forall>k. step (ANotify k) s =
           (if k < length (workers s) \<and> workers s ! k = WWait
            then Some (s\<lparr> workers := (workers s)[k := WWoken], cpc := CIdle \<rparr>)
            else None)) \<and>
        (\<forall>k s'. step (ANotify k) s = Some s' \<longrightarrow>
           count_list (workers s') WWait + 1 = count_list (workers s) WWait)"
  proof (intro allI impI)
    fix j assume c: "cpc s = CAddNotify j"
    have nf: "\<not> freed s" using not_freed_client[OF assms(1)] c by simp
    have a: "step AClient s = (if WWait \<in> set (workers s) then None else Some (s\<lparr> cpc := CIdle \<rparr>))"
      using nf c assms(2) by (simp add: step_def client_step_def)
    have b: "step (ANotify k) s =
           (if k < length (workers s) \<and> workers s ! k = WWait
            then Some (s\<lparr> workers := (workers s)[k := WWoken], cpc := CIdle \<rparr>)
            else None)" for k
      using nf c assms(2) by (simp add: step_def notify_step_def)
    have d: "count_list (workers s') WWait + 1 = count_list (workers s) WWait"
      if "step (ANotify k) s = Some s'" for k s'
    proof -
      have k: "k < length (workers s)" "workers s ! k = WWait"
        and s': "s' = s\<lparr> workers := (workers s)[k := WWoken], cpc := CIdle \<rparr>"
        using that unfolding b by (simp_all split: if_splits)
      show ?thesis using count_list_update[OF k(1), of WWoken WWait] k(2) s' by simp
    qed
    show "step AClient s = (if WWait \<in> set (workers s) then None else Some (s\<lparr> cpc := CIdle \<rparr>)) \<and>
        (\<forall>k. step (ANotify k) s =
           (if k < length (workers s) \<and> workers s ! k = WWait
            then Some (s\<lparr> workers := (workers s)[k := WWoken], cpc := CIdle \<rparr>)
            else None)) \<and>
        (\<forall>k s'. step (ANotify k) s = Some s' \<longrightarrow>
           count_list (workers s') WWait + 1 = count_list (workers s) WWait)"
      using a b d by blast
  qed
  have a6: "\<forall>i. mtx s = Some (Worker i) \<longrightarrow>
        i < length (workers s) \<and>
        (workers s ! i = WTop \<or> (\<exists>t. workers s ! i = WPopped t))"
  proof (intro allI impI)
    fix i assume m: "mtx s = Some (Worker i)"
    have i: "i < length (workers s)" using lock_okD(3)[OF lk m] .
    have "holds (workers s ! i)" using lock_okD(1)[OF lk i] m by simp
    then have "workers s ! i = WTop \<or> (\<exists>t. workers s ! i = WPopped t)"
      by (cases "workers s ! i") simp_all
    then show "i < length (workers s) \<and>
        (workers s ! i = WTop \<or> (\<exists>t. workers s ! i = WPopped t))"
      using i by blast
  qed
  have a7: "\<forall>j t. cpc s = CAddWant j t \<and> handles s ! j \<noteq> Ref \<longrightarrow>
        step AClient s = Some (s\<lparr> fault := Some NullDeref \<rparr>)"
    using assms(2) by (simp add: step_def client_step_def)
  show ?thesis using a1 a2 a3 a4 a5 a6 a7 by (intro conjI)
qed

text \<open>C4 as amended, on an execution in which worker 0 waits: it is the one woken.\<close>

theorem AddTask_appends_and_notifies_witness:
  "reachable 2 (the (run sched_notify (start 2))) \<and>
   fault (the (run sched_notify (start 2))) = None \<and>
   cpc (the (run sched_notify (start 2))) = CAddNotify 0 \<and>
   workers (the (run sched_notify (start 2))) = [WWait, WLock] \<and>
   step (ANotify 0) (the (run sched_notify (start 2))) =
     Some ((the (run sched_notify (start 2)))\<lparr> workers := [WWoken, WLock], cpc := CIdle \<rparr>) \<and>
   step (ANotify 1) (the (run sched_notify (start 2))) = None \<and>
   step AClient (the (run sched_notify (start 2))) = None"
proof -
  have r: "reachable 2 (the (run sched_notify (start 2)))"
    by (rule reachable_run[of 2 sched_notify]) (simp_all add: run_sched_notify)
  have f: "fault (the (run sched_notify (start 2))) = None"
    and c: "cpc (the (run sched_notify (start 2))) = CAddNotify 0"
    and w: "workers (the (run sched_notify (start 2))) = [WWait, WLock]"
    by (simp_all add: run_sched_notify)
  note t = AddTask_appends_and_notifies[OF r f, THEN conjunct2, THEN conjunct2, THEN conjunct2,
      THEN conjunct2, THEN conjunct1, rule_format, OF c]
  have 1: "step AClient (the (run sched_notify (start 2))) = None"
    using t[THEN conjunct1] w by simp
  have 2: "step (ANotify 0) (the (run sched_notify (start 2))) =
     Some ((the (run sched_notify (start 2)))\<lparr> workers := [WWoken, WLock], cpc := CIdle \<rparr>)"
    using t[THEN conjunct2, THEN conjunct1, rule_format, of 0] w by simp
  have 3: "step (ANotify 1) (the (run sched_notify (start 2))) = None"
    using t[THEN conjunct2, THEN conjunct1, rule_format, of 1] w by simp
  show ?thesis using r f c w 1 2 3 by blast
qed

text \<open>
  Claim C4 as stated fails, in three states. Task 8 is submitted while worker 0 executes
  task 7 and worker 1 has not yet reached its wait: no worker waits, \<^verbatim>\<open>notify_one\<close> can
  wake none, and \<^verbatim>\<open>AddTask\<close> returns with the workers as they were. Worker 0 holds the
  mutex at the head of its loop when \<^verbatim>\<open>AddTask\<close> is called: the caller cannot take its
  \<^verbatim>\<open>std::lock_guard\<close> and is blocked. \<^verbatim>\<open>AddTask\<close> is called on the moved-from handle:
  it dereferences the null \<^verbatim>\<open>pool_\<close> and appends nothing.
\<close>

theorem AddTask_wakes_nobody_counterexample:
  "run sched_busy (start 2) =
     Some \<lparr> mtx = None, isClosed = False, tasks = [Task 8 False], refs = 3,
            freed = False, workers = [WRun (Task 7 False), WLock],
            cpc = CAddNotify 0, nthreads = 2, handles = [Ref], fault = None,
            ctor_failed = False, submitted = [Task 7 False, Task 8 False],
            dequeued = [Task 7 False], executed = [] \<rparr> \<and>
   step (ANotify 0) (the (run sched_busy (start 2))) = None \<and>
   step (ANotify 1) (the (run sched_busy (start 2))) = None \<and>
   step AClient (the (run sched_busy (start 2))) =
     Some ((the (run sched_busy (start 2)))\<lparr> cpc := CIdle \<rparr>) \<and>
   workers (the (step AClient (the (run sched_busy (start 2))))) =
     workers (the (run sched_busy (start 2))) \<and>
   run sched_blocked (start 2) =
     Some \<lparr> mtx = Some (Worker 0), isClosed = False, tasks = [], refs = 3,
            freed = False, workers = [WTop, WLock],
            cpc = CAddWant 0 (Task 7 False), nthreads = 2, handles = [Ref],
            fault = None, ctor_failed = False, submitted = [], dequeued = [],
            executed = [] \<rparr> \<and>
   step AClient (the (run sched_blocked (start 2))) = None \<and>
   run sched_null (start 2) =
     Some \<lparr> mtx = None, isClosed = False, tasks = [], refs = 3, freed = False,
            workers = [WLock, WLock], cpc = CAddWant 0 (Task 7 False),
            nthreads = 2, handles = [Null, Ref, Null], fault = None,
            ctor_failed = False, submitted = [], dequeued = [], executed = [] \<rparr> \<and>
   step AClient (the (run sched_null (start 2))) =
     Some ((the (run sched_null (start 2)))\<lparr> fault := Some NullDeref \<rparr>)"
  unfolding run_sched_busy run_sched_blocked run_sched_null by (simp add: step_defs)

section \<open>After shutdown: progress and termination of the workers\<close>

lemma weight_update:
  "i < length ws \<Longrightarrow>
     sum_list (map weight (ws[i := p])) + weight (ws ! i) = sum_list (map weight ws) + weight p"
proof (induction ws arbitrary: i)
  case Nil
  then show ?case by simp
next
  case (Cons x xs)
  show ?case
  proof (cases i)
    case 0
    then show ?thesis by simp
  next
    case (Suc k)
    then have "k < length xs" using Cons.prems by simp
    from Cons.IH[OF this] show ?thesis using Suc by simp
  qed
qed

lemma drain_worker:
  assumes "worker_step i s = Some s'" "isClosed s" "fault s = None" "fault s' = None"
  shows "drain_measure s' < drain_measure s"
  using assms(1)
proof (cases rule: worker_step_cases)
  case uaf
  then show ?thesis using assms(4) by simp
next
  case lock
  then show ?thesis using weight_update[of i "workers s" WTop] by (simp add: drain_measure_def)
next
  case (pop t q)
  then show ?thesis using weight_update[of i "workers s" "WPopped t"]
    by (simp add: drain_measure_def)
next
  case exit
  then show ?thesis using weight_update[of i "workers s" WDone]
    by (simp add: drain_measure_def release_def)
next
  case wait
  then show ?thesis using assms(2) by simp
next
  case (unlock t)
  then show ?thesis using weight_update[of i "workers s" "WRun t"]
    by (simp add: drain_measure_def)
next
  case (ret t)
  then show ?thesis using weight_update[of i "workers s" WRelock]
    by (simp add: drain_measure_def)
next
  case (throw t)
  then show ?thesis using assms(4) by simp
next
  case relock
  then show ?thesis using weight_update[of i "workers s" WTop] by (simp add: drain_measure_def)
next
  case woken
  then show ?thesis using weight_update[of i "workers s" WTop] by (simp add: drain_measure_def)
qed

lemma closed_client_free:
  assumes "reachable n s" "isClosed s" "\<not> unnotified (cpc s)"
  shows "mtx s \<noteq> Some Client"
proof
  assume "mtx s = Some Client"
  then have h: "client_holds (cpc s)" using lock_okD(2)[OF lock_ok_reachable[OF assms(1)]] by simp
  then have "uses_pool (cpc s) \<and> \<not> closing (cpc s)"
    using assms(3) by (cases "cpc s") simp_all
  then show False
    using open_uses_pool[OF closed_ok_reachable[OF assms(1)] handles_ok_reachable[OF assms(1)]]
      assms(2) by blast
qed

lemma drain_progress:
  assumes "reachable n s" "isClosed s" "\<not> unnotified (cpc s)" "fault s = None"
    "i < length (workers s)" "workers s ! i \<noteq> WDone"
  shows "\<exists>k < length (workers s). \<exists>s'. step (AWorker k) s = Some s'"
proof -
  note lk = lock_ok_reachable[OF assms(1)]
  have nw: "WWait \<notin> set (workers s)"
    using closed_ok_reachable[OF assms(1)] assms(2,3) by (simp add: closed_ok_def)
  have nc: "mtx s \<noteq> Some Client" using closed_client_free[OF assms(1-3)] .
  have en: "\<exists>s'. step (AWorker k) s = Some s'"
    if k: "k < length (workers s)" and p: "workers s ! k \<noteq> WDone"
      and m: "mtx s = None \<or> mtx s = Some (Worker k)" for k
  proof -
    have nf: "\<not> freed s" using not_freed_worker[OF assms(1) k p] .
    have ww: "workers s ! k \<noteq> WWait" using nw k nth_mem by fastforce
    have hk: "holds (workers s ! k) \<longleftrightarrow> mtx s = Some (Worker k)" using lock_okD(1)[OF lk k] .
    show ?thesis
    proof (cases "workers s ! k")
      case WTop
      then show ?thesis using k nf assms(2,4)
        by (cases "tasks s") (simp_all add: step_def worker_step_def)
    next
      case (WRun t)
      then show ?thesis using k assms(4) by (simp add: step_def worker_step_def)
    qed (use k nf p ww hk m assms(4) in \<open>simp_all add: step_def worker_step_def\<close>)
  qed
  show ?thesis
  proof (cases "mtx s")
    case None
    then show ?thesis using en[OF assms(5,6)] assms(5) by blast
  next
    case (Some ow)
    then obtain k where k: "mtx s = Some (Worker k)" using nc by (cases ow) simp_all
    have kl: "k < length (workers s)" using lock_okD(3)[OF lk k] .
    have "holds (workers s ! k)" using lock_okD(1)[OF lk kl] k by simp
    then have "workers s ! k \<noteq> WDone" by auto
    then show ?thesis using en[OF kl] k kl by blast
  qed
qed

lemma closed_step:
  assumes "step a s = Some s'" "isClosed s"
  shows "isClosed s'"
  using assms(1)
proof (cases rule: step_cases)
  case (call c)
  from call(3) show ?thesis using assms(2) by (cases rule: call_step_cases) simp_all
next
  case client
  from client(3) show ?thesis using assms(2)
    by (cases rule: client_step_cases) (simp_all add: release_def)
next
  case (notify k)
  from notify(3) show ?thesis using assms(2) by (cases rule: notify_step_cases) simp_all
next
  case fail
  from fail(3) show ?thesis using assms(2)
    by (cases rule: thread_fail_step_cases) (auto simp: release_def split: if_splits)
next
  case quit
  from quit(3) show ?thesis using assms(2)
    by (cases rule: process_exit_cases) (auto simp: release_def split: if_splits)
next
  case (worker k)
  from worker(3) show ?thesis using assms(2)
    by (cases rule: worker_step_cases) (simp_all add: release_def)
next
  case (spurious k)
  from spurious(3) show ?thesis using assms(2) by (cases rule: spurious_step_cases) simp_all
qed

lemma no_new_wait:
  assumes "step a s = Some s'" "isClosed s" "i < length (workers s)" "workers s' ! i = WWait"
  shows "workers s ! i = WWait"
proof (rule ccontr)
  assume n: "workers s ! i \<noteq> WWait"
  then have a: "a = AWorker i" using step_pc[OF assms(1,3)] assms(4) by auto
  then have w: "worker_step i s = Some s'" using assms(1) by (simp add: step_def split: if_splits)
  from w show False using assms(2-4) n
    by (cases rule: worker_step_cases) (auto simp: release_def)
qed

lemma reachable_pos: "reachable n s \<Longrightarrow> 0 < n"
  unfolding reachable_def ctor_start by blast

lemma closed_past_ctor:
  assumes "reachable n s" "isClosed s"
  shows "\<forall>i. cpc s \<noteq> CCtor i"
proof (intro allI notI)
  fix i assume c: "cpc s = CCtor i"
  then have "handles s = [Ref]"
    using handles_ok_reachable[OF assms(1)] by (simp add: handles_ok_def)
  then show False
    using closed_ok_reachable[OF assms(1)] assms(2) c by (simp add: closed_ok_def)
qed

lemma closed_has_workers:
  assumes "reachable n s" "isClosed s"
  shows "workers s \<noteq> []"
proof -
  have "\<not> ctor_failed s" using abandon_ok_reachable[OF assms(1)] assms(2) by (auto simp: abandon_ok_def)
  then have "length (workers s) = unat n"
    using ctor_ok_reachable[OF assms(1)] closed_past_ctor[OF assms] by (simp add: ctor_ok_def)
  moreover have "0 < unat n" using reachable_pos[OF assms(1)] by (simp add: word_less_nat_alt)
  ultimately show ?thesis by auto
qed

lemma worker_keeps:
  assumes "worker_step i s = Some s'"
  shows "submitted s' = submitted s \<and> cpc s' = cpc s"
  using assms by (cases rule: worker_step_cases) (simp_all add: release_def)

lemma worker_no_fault:
  assumes "reachable n s" "fault s = None" "\<forall>t \<in> set (submitted s). \<not> throws t"
    "worker_step i s = Some s'"
  shows "fault s' = None"
  using assms(4)
proof (cases rule: worker_step_cases)
  case uaf
  then show ?thesis using not_freed_worker[OF assms(1)] by blast
next
  case (throw t)
  have "mset (pc_task (workers s ! i)) \<subseteq># flying (workers s)"
    using flying_update[of i "workers s" WDone] throw(1)
    by (metis add.right_neutral mset.simps(1) mset_subset_eq_add_right pc_task.simps(8))
  then have "t \<in># flying (workers s)" using throw(2) by simp
  then have "t \<in> set (submitted s)"
    using logs_ok_reachable[OF assms(1)]
    by (metis logs_ok_def mset_append set_mset_mset union_iff)
  then show ?thesis using assms(3) throw(3) by blast
qed (use assms(2) in \<open>simp_all add: release_def\<close>)

text \<open>
  After shutdown the workers can always finish: some schedule of worker steps empties the
  queue and ends every worker, when no submitted task throws.
\<close>

lemma drain_exists:
  assumes "reachable n s" "isClosed s" "\<not> unnotified (cpc s)" "fault s = None"
    "\<forall>t \<in> set (submitted s). \<not> throws t"
  shows "\<exists>ks s'. run (map AWorker ks) s = Some s' \<and> fault s' = None \<and>
           (\<forall>p \<in> set (workers s'). p = WDone)"
  using assms
proof (induction "drain_measure s" arbitrary: s rule: less_induct)
  case less
  show ?case
  proof (cases "\<forall>p \<in> set (workers s). p = WDone")
    case True
    have "run (map AWorker []) s = Some s" by simp
    then show ?thesis using True less.prems(4) by blast
  next
    case False
    then obtain i where i: "i < length (workers s)" "workers s ! i \<noteq> WDone"
      by (metis in_set_conv_nth)
    obtain k s1 where k: "k < length (workers s)" and st: "step (AWorker k) s = Some s1"
      using drain_progress[OF less.prems(1-4) i] by blast
    have w: "worker_step k s = Some s1" using st by (simp add: step_def split: if_splits)
    have f1: "fault s1 = None" using worker_no_fault[OF less.prems(1,4,5) w] .
    have m: "drain_measure s1 < drain_measure s"
      using drain_worker[OF w less.prems(2,4) f1] .
    have r1: "reachable n s1" using reachable_step[OF less.prems(1) st] .
    have c1: "isClosed s1" using closed_step[OF st less.prems(2)] .
    have k1: "\<not> unnotified (cpc s1)" "\<forall>t \<in> set (submitted s1). \<not> throws t"
      using worker_keeps[OF w] less.prems(3,5) by simp_all
    obtain ks s' where "run (map AWorker ks) s1 = Some s'" "fault s' = None"
      "\<forall>p \<in> set (workers s'). p = WDone"
      using less.hyps[OF m r1 c1 k1(1) f1 k1(2)] by blast
    then have "run (map AWorker (k # ks)) s = Some s' \<and> fault s' = None \<and>
           (\<forall>p \<in> set (workers s'). p = WDone)"
      using st by simp
    then show ?thesis by blast
  qed
qed

lemma dtor_closed:
  assumes "reachable n s" "cpc s = CDtorNotify j \<or> cpc s = CDtorSet j"
  shows "isClosed s"
  using assms
proof (induction arbitrary: j rule: reachable_induct)
  case start
  then show ?case by (simp add: start_def)
next
  case (step s a s')
  note ih = step.IH and p = step.prems and st = \<open>step a s = Some s'\<close>
  from st show ?case
  proof (cases rule: step_cases)
    case (call c)
    from call(3) show ?thesis using p by (cases rule: call_step_cases) auto
  next
    case client
    from client(3) show ?thesis using ih p
      by (cases rule: client_step_cases) (auto simp: release_def split: if_splits)
  next
    case (notify k)
    from notify(3) show ?thesis using p by (cases rule: notify_step_cases) auto
  next
    case fail
    from fail(3) show ?thesis using p
      by (cases rule: thread_fail_step_cases) (auto simp: release_def split: if_splits)
  next
    case quit
    from quit(3) show ?thesis using p
      by (cases rule: process_exit_cases) (auto simp: release_def split: if_splits)
  next
    case (worker k)
    from worker(3) show ?thesis using ih p
      by (cases rule: worker_step_cases) (auto simp: release_def)
  next
    case (spurious k)
    from spurious(3) show ?thesis using ih p by (cases rule: spurious_step_cases) auto
  qed
qed

lemma reachable_run_from:
  "reachable n s \<Longrightarrow> run as s = Some s' \<Longrightarrow> reachable n s'"
proof (induction as arbitrary: s)
  case Nil
  then show ?case by simp
next
  case (Cons a as)
  then show ?case by (auto split: option.splits dest: reachable_step)
qed

lemma closed_run: "run as s = Some s' \<Longrightarrow> isClosed s \<Longrightarrow> isClosed s'"
proof (induction as arbitrary: s)
  case Nil
  then show ?case by simp
next
  case (Cons a as)
  then show ?case by (auto split: option.splits dest: closed_step)
qed

lemma workers_run_keep: "run (map AWorker ks) s = Some s' \<Longrightarrow> submitted s' = submitted s"
proof (induction ks arbitrary: s)
  case Nil
  then show ?case by simp
next
  case (Cons k ks)
  then obtain s1 where s1: "step (AWorker k) s = Some s1" "run (map AWorker ks) s1 = Some s'"
    by (auto split: option.splits)
  then have "worker_step k s = Some s1" by (simp add: step_def split: if_splits)
  then show ?case using worker_keeps Cons.IH[OF s1(2)] by simp
qed

section \<open>No wake-up is lost, and the workers execute what is queued\<close>








text \<open>
  After shutdown the other threads leave the queue and the workers alone: nothing is
  submitted any more and no worker is put to sleep or woken.
\<close>

lemma closed_quiet:
  assumes "reachable n s" "isClosed s" "\<not> unnotified (cpc s)" "step a s = Some s'"
    "\<not> worker_action a"
  shows "tasks s' = tasks s \<and> workers s' = workers s \<and> submitted s' = submitted s \<and>
         \<not> unnotified (cpc s')"
proof -
  note cl = closed_ok_reachable[OF assms(1)]
  note hd = handles_ok_reachable[OF assms(1)]
  have op: "\<not> (uses_pool (cpc s) \<and> \<not> closing (cpc s))"
    using open_uses_pool[OF cl hd] assms(2) by blast
  have nw: "WWait \<notin> set (workers s)" using cl assms(2,3) by (simp add: closed_ok_def)
  from assms(4) show ?thesis
  proof (cases rule: step_cases)
    case (call c)
    from call(3) show ?thesis by (cases rule: call_step_cases) simp_all
  next
    case client
    from client(3) show ?thesis
    proof (cases rule: client_step_cases)
      case uaf
      then show ?thesis using assms(3) by simp
    next
      case (spawn i)
      then show ?thesis using closed_past_ctor[OF assms(1,2)] by simp
    next
      case (add_push j t)
      then show ?thesis using op by simp
    next
      case (dtor_set j)
      then show ?thesis using op by simp
    next
      case (dtor_unlock j)
      then show ?thesis using assms(3) by simp
    next
      case (dtor_notify j)
      then show ?thesis using assms(3) by simp
    qed (simp_all add: release_def)
  next
    case (notify k)
    from notify(3) show ?thesis
    proof (cases rule: notify_step_cases)
      case (uaf j)
      then show ?thesis by simp
    next
      case (wake j)
      then show ?thesis using op by simp
    qed
  next
    case fail
    from fail(3) show ?thesis by (cases rule: thread_fail_step_cases) (simp add: release_def)
  next
    case quit
    from quit(3) show ?thesis by (cases rule: process_exit_cases) simp
  next
    case (worker k)
    then show ?thesis using assms(5) by simp
  next
    case (spurious k)
    from spurious(3) show ?thesis
    proof (cases rule: spurious_step_cases)
      case spurious
      then show ?thesis using nw nth_mem by fastforce
    qed
  qed
qed

lemma run_fault: "run as s = Some s' \<Longrightarrow> fault s' = None \<Longrightarrow> fault s = None"
proof (cases as)
  case Nil
  assume "run as s = Some s'" "fault s' = None"
  then show ?thesis using Nil by simp
next
  case (Cons a bs)
  assume "run as s = Some s'"
  then obtain s1 where "step a s = Some s1" using Cons by (auto split: option.splits)
  then show ?thesis by (simp add: step_def split: if_splits)
qed

text \<open>
  In an execution after shutdown that the process survives, the workers take at most
  \<open>drain_measure\<close> steps, whatever the other threads do in between.
\<close>

lemma drain_bound:
  assumes "reachable n s" "isClosed s" "\<not> unnotified (cpc s)" "run as s = Some s'"
    "fault s' = None"
  shows "length (filter worker_action as) + drain_measure s' \<le> drain_measure s \<and>
         submitted s' = submitted s \<and> \<not> unnotified (cpc s')"
  using assms
proof (induction as arbitrary: s)
  case Nil
  then show ?case by simp
next
  case (Cons a as)
  then obtain s1 where st: "step a s = Some s1" and rn: "run as s1 = Some s'"
    by (auto split: option.splits)
  have f: "fault s = None" using st by (simp add: step_def split: if_splits)
  have f1: "fault s1 = None" using run_fault[OF rn Cons.prems(5)] .
  have r1: "reachable n s1" using reachable_step[OF Cons.prems(1) st] .
  have c1: "isClosed s1" using closed_step[OF st Cons.prems(2)] .
  show ?case
  proof (cases "worker_action a")
    case True
    then obtain k where a: "a = AWorker k" by (cases a) simp_all
    then have w: "worker_step k s = Some s1" using st by (simp add: step_def split: if_splits)
    have m: "drain_measure s1 < drain_measure s" using drain_worker[OF w Cons.prems(2) f f1] .
    have k1: "submitted s1 = submitted s" "cpc s1 = cpc s" using worker_keeps[OF w] by simp_all
    then have u1: "\<not> unnotified (cpc s1)" using Cons.prems(3) by simp
    have "length (filter worker_action as) + drain_measure s' \<le> drain_measure s1 \<and>
         submitted s' = submitted s1 \<and> \<not> unnotified (cpc s')"
      using Cons.IH[OF r1 c1 u1 rn Cons.prems(5)] .
    then show ?thesis using m k1 a by simp
  next
    case False
    have q: "tasks s1 = tasks s \<and> workers s1 = workers s \<and> submitted s1 = submitted s \<and>
         \<not> unnotified (cpc s1)"
      using closed_quiet[OF Cons.prems(1-3) st False] .
    then have m: "drain_measure s1 = drain_measure s" by (simp add: drain_measure_def)
    have "length (filter worker_action as) + drain_measure s' \<le> drain_measure s1 \<and>
         submitted s' = submitted s1 \<and> \<not> unnotified (cpc s')"
      using Cons.IH[OF r1 c1 _ rn Cons.prems(5)] q by blast
    then show ?thesis using m q False by simp
  qed
qed

text \<open>After shutdown, when no worker can move, every worker has ended.\<close>

lemma closed_stuck_done:
  assumes "reachable n s" "isClosed s" "\<not> unnotified (cpc s)" "fault s = None"
    "\<forall>k < length (workers s). step (AWorker k) s = None"
  shows "(\<forall>p \<in> set (workers s). p = WDone) \<and> tasks s = [] \<and>
         mset (executed s) = mset (submitted s)"
proof -
  have d: "\<forall>p \<in> set (workers s). p = WDone"
  proof (rule ccontr)
    assume "\<not> (\<forall>p \<in> set (workers s). p = WDone)"
    then obtain i where "i < length (workers s)" "workers s ! i \<noteq> WDone"
      by (metis in_set_conv_nth)
    then show False using drain_progress[OF assms(1-4)] assms(5) by fastforce
  qed
  have "workers s \<noteq> []" using closed_has_workers[OF assms(1,2)] .
  then have "WDone \<in> set (workers s)" using d by (cases "workers s") auto
  then have t: "tasks s = []" using closed_ok_reachable[OF assms(1)] by (simp add: closed_ok_def)
  have "flying (workers s) = {#}" using d flying_all_done by blast
  then have "mset (executed s) = mset (submitted s)"
    using logs_ok_reachable[OF assms(1)] t by (simp add: logs_ok_def)
  then show ?thesis using d t by blast
qed

lemma workers_no_fault:
  assumes "reachable n s" "fault s = None" "\<forall>t \<in> set (submitted s). \<not> throws t"
    "run (map AWorker ks) s = Some s'"
  shows "fault s' = None"
  using assms
proof (induction ks arbitrary: s)
  case Nil
  then show ?case by simp
next
  case (Cons k ks)
  then obtain s1 where st: "step (AWorker k) s = Some s1" and rn: "run (map AWorker ks) s1 = Some s'"
    by (auto split: option.splits)
  have w: "worker_step k s = Some s1" using st by (simp add: step_def split: if_splits)
  have f1: "fault s1 = None" using worker_no_fault[OF Cons.prems(1,2,3) w] .
  have r1: "reachable n s1" using reachable_step[OF Cons.prems(1) st] .
  have k1: "\<forall>t \<in> set (submitted s1). \<not> throws t"
    using worker_keeps[OF w] Cons.prems(3) by simp
  show ?case using Cons.IH[OF r1 f1 k1 rn] .
qed

section \<open>Shutdown: claim C6\<close>

text \<open>
  Claim C6, as amended. The destructor of a handle that refers to the pool sets
  \<^verbatim>\<open>isClosed\<close> while the client holds the mutex, on a pool that is not yet closed, and
  its \<^verbatim>\<open>notify_all\<close> leaves no worker waiting. The flag is never reset and, once it is
  set, no worker enters a wait. After \<^verbatim>\<open>notify_all\<close> no worker waits and the client
  does not hold the mutex, and as long as the process has not ended:
  some worker can move while some worker has not ended; every step of a worker
  decreases \<open>drain_measure\<close>, so in every execution that the process survives the
  workers take at most \<open>drain_measure\<close> steps, whatever the other threads do; when no
  worker can move, every worker has ended, the queue is empty and every submitted task
  has been executed. When no submitted task throws, the steps of the workers never end
  the process, and some schedule of them ends every worker. The process ends, and with
  it every thread, when a task throws in a worker and when \<^verbatim>\<open>main\<close> returns: then the
  workers neither drain the queue nor leave their loop.
\<close>

theorem shutdown_wakes_and_drains:
  assumes "reachable n s"
  shows
    "(\<forall>j. cpc s = CDtorLocked j \<and> fault s = None \<longrightarrow>
        mtx s = Some Client \<and> \<not> isClosed s \<and>
        step AClient s = Some (s\<lparr> isClosed := True, cpc := CDtorSet j \<rparr>)) \<and>
     (\<forall>j. cpc s = CDtorNotify j \<and> fault s = None \<longrightarrow>
        isClosed s \<and> WWait \<notin> set (notify_all (workers s)) \<and>
        step AClient s = Some (s\<lparr> workers := notify_all (workers s), cpc := CDtorEnd j \<rparr>)) \<and>
     (\<forall>a s'. step a s = Some s' \<and> isClosed s \<longrightarrow>
        isClosed s' \<and>
        (\<forall>i < length (workers s). workers s' ! i = WWait \<longrightarrow> workers s ! i = WWait)) \<and>
     (isClosed s \<and> (\<forall>j. cpc s \<noteq> CDtorSet j \<and> cpc s \<noteq> CDtorNotify j) \<longrightarrow>
        WWait \<notin> set (workers s) \<and> mtx s \<noteq> Some Client) \<and>
     (isClosed s \<and> (\<forall>j. cpc s \<noteq> CDtorSet j \<and> cpc s \<noteq> CDtorNotify j) \<and>
      fault s = None \<and> (\<exists>p \<in> set (workers s). p \<noteq> WDone) \<longrightarrow>
        (\<exists>k < length (workers s). \<exists>s'. step (AWorker k) s = Some s')) \<and>
     (\<forall>k s'. isClosed s \<and> step (AWorker k) s = Some s' \<and> fault s' = None \<longrightarrow>
        drain_measure s' < drain_measure s) \<and>
     (isClosed s \<and> (\<forall>j. cpc s \<noteq> CDtorSet j \<and> cpc s \<noteq> CDtorNotify j) \<and>
      fault s = None \<and> (\<forall>t \<in> set (submitted s). \<not> throws t) \<longrightarrow>
        (\<exists>ks s'. run (map AWorker ks) s = Some s' \<and> fault s' = None \<and>
           (\<forall>p \<in> set (workers s'). p = WDone) \<and> tasks s' = [] \<and>
           mset (executed s') = mset (submitted s))) \<and>
     (\<forall>as s'. isClosed s \<and> (\<forall>j. cpc s \<noteq> CDtorSet j \<and> cpc s \<noteq> CDtorNotify j) \<and>
        run as s = Some s' \<and> fault s' = None \<longrightarrow>
        length (filter worker_action as) + drain_measure s' \<le> drain_measure s \<and>
        submitted s' = submitted s \<and> isClosed s' \<and> WWait \<notin> set (workers s') \<and>
        ((\<forall>k < length (workers s'). step (AWorker k) s' = None) \<longrightarrow>
           (\<forall>p \<in> set (workers s'). p = WDone) \<and> tasks s' = [] \<and>
           mset (executed s') = mset (submitted s))) \<and>
     (\<forall>ks s'. fault s = None \<and> (\<forall>t \<in> set (submitted s). \<not> throws t) \<and>
        run (map AWorker ks) s = Some s' \<longrightarrow> fault s' = None) \<and>
     (\<forall>k t. k < length (workers s) \<and> workers s ! k = WRun t \<and> throws t \<and> fault s = None \<longrightarrow>
        step (AWorker k) s = Some (s\<lparr> fault := Some Terminated \<rparr>)) \<and>
     (cpc s = CIdle \<and> fault s = None \<longrightarrow> step AExit s = Some (s\<lparr> fault := Some Exited \<rparr>)) \<and>
     (\<forall>a. fault s \<noteq> None \<longrightarrow> step a s = None)"
proof -
  note lk = lock_ok_reachable[OF assms]
  note hd = handles_ok_reachable[OF assms]
  note cl = closed_ok_reachable[OF assms]
  have un: "\<not> unnotified (cpc s)" if "\<forall>j. cpc s \<noteq> CDtorSet j \<and> cpc s \<noteq> CDtorNotify j"
    using that by (cases "cpc s") simp_all
  have a1: "\<forall>j. cpc s = CDtorLocked j \<and> fault s = None \<longrightarrow>
        mtx s = Some Client \<and> \<not> isClosed s \<and>
        step AClient s = Some (s\<lparr> isClosed := True, cpc := CDtorSet j \<rparr>)"
  proof (intro allI impI)
    fix j assume c: "cpc s = CDtorLocked j \<and> fault s = None"
    have "mtx s = Some Client" using lock_okD(2)[OF lk] c by simp
    moreover have "\<not> isClosed s" using open_uses_pool[OF cl hd] c by simp
    moreover have "\<not> freed s" using not_freed_client[OF assms] c by simp
    ultimately show "mtx s = Some Client \<and> \<not> isClosed s \<and>
        step AClient s = Some (s\<lparr> isClosed := True, cpc := CDtorSet j \<rparr>)"
      using c by (simp add: step_def client_step_def)
  qed
  have a2: "\<forall>j. cpc s = CDtorNotify j \<and> fault s = None \<longrightarrow>
        isClosed s \<and> WWait \<notin> set (notify_all (workers s)) \<and>
        step AClient s = Some (s\<lparr> workers := notify_all (workers s), cpc := CDtorEnd j \<rparr>)"
  proof (intro allI impI)
    fix j assume c: "cpc s = CDtorNotify j \<and> fault s = None"
    have "isClosed s"
    proof (rule ccontr)
      assume "\<not> isClosed s"
      then show False using c dtor_closed[OF assms] by blast
    qed
    moreover have "\<not> freed s" using not_freed_client[OF assms] c by simp
    ultimately show "isClosed s \<and> WWait \<notin> set (notify_all (workers s)) \<and>
        step AClient s = Some (s\<lparr> workers := notify_all (workers s), cpc := CDtorEnd j \<rparr>)"
      using c by (simp add: step_def client_step_def)
  qed
  have a3: "\<forall>a s'. step a s = Some s' \<and> isClosed s \<longrightarrow>
        isClosed s' \<and>
        (\<forall>i < length (workers s). workers s' ! i = WWait \<longrightarrow> workers s ! i = WWait)"
    using closed_step no_new_wait by blast
  have a4: "isClosed s \<and> (\<forall>j. cpc s \<noteq> CDtorSet j \<and> cpc s \<noteq> CDtorNotify j) \<longrightarrow>
        WWait \<notin> set (workers s) \<and> mtx s \<noteq> Some Client"
    using cl un closed_client_free[OF assms] by (auto simp: closed_ok_def)
  have a5: "isClosed s \<and> (\<forall>j. cpc s \<noteq> CDtorSet j \<and> cpc s \<noteq> CDtorNotify j) \<and>
      fault s = None \<and> (\<exists>p \<in> set (workers s). p \<noteq> WDone) \<longrightarrow>
        (\<exists>k < length (workers s). \<exists>s'. step (AWorker k) s = Some s')"
  proof (intro impI)
    assume h: "isClosed s \<and> (\<forall>j. cpc s \<noteq> CDtorSet j \<and> cpc s \<noteq> CDtorNotify j) \<and>
      fault s = None \<and> (\<exists>p \<in> set (workers s). p \<noteq> WDone)"
    then obtain i where i: "i < length (workers s)" "workers s ! i \<noteq> WDone"
      by (metis in_set_conv_nth)
    show "\<exists>k < length (workers s). \<exists>s'. step (AWorker k) s = Some s'"
    proof -
      from h have c: "isClosed s" and u: "\<forall>j. cpc s \<noteq> CDtorSet j \<and> cpc s \<noteq> CDtorNotify j"
        and f: "fault s = None" by blast+
      show ?thesis using drain_progress[OF assms c un[OF u] f i] .
    qed
  qed
  have a6: "\<forall>k s'. isClosed s \<and> step (AWorker k) s = Some s' \<and> fault s' = None \<longrightarrow>
        drain_measure s' < drain_measure s"
  proof (intro allI impI)
    fix k s' assume h: "isClosed s \<and> step (AWorker k) s = Some s' \<and> fault s' = None"
    then have f: "fault s = None" and w: "worker_step k s = Some s'"
      by (simp_all add: step_def split: if_splits)
    from h have c: "isClosed s" and f': "fault s' = None" by blast+
    show "drain_measure s' < drain_measure s" using drain_worker[OF w c f f'] .
  qed
  have a7: "isClosed s \<and> (\<forall>j. cpc s \<noteq> CDtorSet j \<and> cpc s \<noteq> CDtorNotify j) \<and>
      fault s = None \<and> (\<forall>t \<in> set (submitted s). \<not> throws t) \<longrightarrow>
        (\<exists>ks s'. run (map AWorker ks) s = Some s' \<and> fault s' = None \<and>
           (\<forall>p \<in> set (workers s'). p = WDone) \<and> tasks s' = [] \<and>
           mset (executed s') = mset (submitted s))"
  proof (intro impI)
    assume h: "isClosed s \<and> (\<forall>j. cpc s \<noteq> CDtorSet j \<and> cpc s \<noteq> CDtorNotify j) \<and>
      fault s = None \<and> (\<forall>t \<in> set (submitted s). \<not> throws t)"
    then have c: "isClosed s" and u: "\<forall>j. cpc s \<noteq> CDtorSet j \<and> cpc s \<noteq> CDtorNotify j"
      and f: "fault s = None" and nt: "\<forall>t \<in> set (submitted s). \<not> throws t" by blast+
    obtain ks s' where d: "run (map AWorker ks) s = Some s'" "fault s' = None"
      "\<forall>p \<in> set (workers s'). p = WDone"
      using drain_exists[OF assms c un[OF u] f nt] by blast
    have r': "reachable n s'" using reachable_run_from[OF assms d(1)] .
    have c': "isClosed s'" using closed_run[OF d(1) c] .
    have sub: "submitted s' = submitted s" using workers_run_keep[OF d(1)] .
    have ne: "workers s' \<noteq> []" using closed_has_workers[OF r' c'] .
    then have wd: "WDone \<in> set (workers s')" using d(3) by (cases "workers s'") auto
    have t: "tasks s' = []" using closed_ok_reachable[OF r'] wd by (simp add: closed_ok_def)
    have "flying (workers s') = {#}" using d(3) flying_all_done by blast
    then have "mset (executed s') = mset (submitted s')"
      using logs_ok_reachable[OF r'] t by (simp add: logs_ok_def)
    then show "\<exists>ks s'. run (map AWorker ks) s = Some s' \<and> fault s' = None \<and>
           (\<forall>p \<in> set (workers s'). p = WDone) \<and> tasks s' = [] \<and>
           mset (executed s') = mset (submitted s)"
      using d t sub by auto
  qed
  have a8: "\<forall>as s'. isClosed s \<and> (\<forall>j. cpc s \<noteq> CDtorSet j \<and> cpc s \<noteq> CDtorNotify j) \<and>
        run as s = Some s' \<and> fault s' = None \<longrightarrow>
        length (filter worker_action as) + drain_measure s' \<le> drain_measure s \<and>
        submitted s' = submitted s \<and> isClosed s' \<and> WWait \<notin> set (workers s') \<and>
        ((\<forall>k < length (workers s'). step (AWorker k) s' = None) \<longrightarrow>
           (\<forall>p \<in> set (workers s'). p = WDone) \<and> tasks s' = [] \<and>
           mset (executed s') = mset (submitted s))"
  proof (intro allI impI)
    fix as s'
    assume h: "isClosed s \<and> (\<forall>j. cpc s \<noteq> CDtorSet j \<and> cpc s \<noteq> CDtorNotify j) \<and>
        run as s = Some s' \<and> fault s' = None"
    then have c: "isClosed s" and u: "\<forall>j. cpc s \<noteq> CDtorSet j \<and> cpc s \<noteq> CDtorNotify j"
      and rn: "run as s = Some s'" and f': "fault s' = None" by blast+
    have b: "length (filter worker_action as) + drain_measure s' \<le> drain_measure s \<and>
         submitted s' = submitted s \<and> \<not> unnotified (cpc s')"
      using drain_bound[OF assms c un[OF u] rn f'] .
    then have u': "\<not> unnotified (cpc s')" by blast
    have r': "reachable n s'" using reachable_run_from[OF assms rn] .
    have c': "isClosed s'" using closed_run[OF rn c] .
    have w': "WWait \<notin> set (workers s')"
      using closed_ok_reachable[OF r'] c' u' by (simp add: closed_ok_def)
    have d: "(\<forall>k < length (workers s'). step (AWorker k) s' = None) \<longrightarrow>
           (\<forall>p \<in> set (workers s'). p = WDone) \<and> tasks s' = [] \<and>
           mset (executed s') = mset (submitted s)"
    proof
      assume "\<forall>k < length (workers s'). step (AWorker k) s' = None"
      then show "(\<forall>p \<in> set (workers s'). p = WDone) \<and> tasks s' = [] \<and>
           mset (executed s') = mset (submitted s)"
        using closed_stuck_done[OF r' c' u' f'] b by simp
    qed
    show "length (filter worker_action as) + drain_measure s' \<le> drain_measure s \<and>
        submitted s' = submitted s \<and> isClosed s' \<and> WWait \<notin> set (workers s') \<and>
        ((\<forall>k < length (workers s'). step (AWorker k) s' = None) \<longrightarrow>
           (\<forall>p \<in> set (workers s'). p = WDone) \<and> tasks s' = [] \<and>
           mset (executed s') = mset (submitted s))"
      using b c' w' d by (intro conjI) blast+
  qed
  have a9: "\<forall>ks s'. fault s = None \<and> (\<forall>t \<in> set (submitted s). \<not> throws t) \<and>
        run (map AWorker ks) s = Some s' \<longrightarrow> fault s' = None"
  proof (intro allI impI)
    fix ks s'
    assume h: "fault s = None \<and> (\<forall>t \<in> set (submitted s). \<not> throws t) \<and>
        run (map AWorker ks) s = Some s'"
    then have f: "fault s = None" and nt: "\<forall>t \<in> set (submitted s). \<not> throws t"
      and rn: "run (map AWorker ks) s = Some s'" by blast+
    show "fault s' = None" using workers_no_fault[OF assms f nt rn] .
  qed
  have a10: "\<forall>k t. k < length (workers s) \<and> workers s ! k = WRun t \<and> throws t \<and> fault s = None \<longrightarrow>
        step (AWorker k) s = Some (s\<lparr> fault := Some Terminated \<rparr>)"
    by (simp add: step_def worker_step_def)
  have a11: "cpc s = CIdle \<and> fault s = None \<longrightarrow> step AExit s = Some (s\<lparr> fault := Some Exited \<rparr>)"
    by (simp add: step_def process_exit_def)
  have a12: "\<forall>a. fault s \<noteq> None \<longrightarrow> step a s = None"
    by (simp add: step_def)
  show ?thesis using a1 a2 a3 a4 a5 a6 a7 a8 a9 a10 a11 a12 by (intro conjI)
qed

text \<open>
  C6 as amended, on the execution in which the destructor has run while worker 0 is
  inside task 7: no worker waits, the three steps that are left to worker 0 are within
  the bound, and the workers can end with task 7 executed.
\<close>

theorem shutdown_wakes_and_drains_witness:
  "reachable 2 (the (run sched_shutdown (start 2))) \<and>
   isClosed (the (run sched_shutdown (start 2))) \<and>
   workers (the (run sched_shutdown (start 2))) = [WRun (Task 7 False), WDone] \<and>
   WWait \<notin> set (workers (the (run sched_shutdown (start 2)))) \<and>
   run [AWorker 0, AWorker 0, AWorker 0] (the (run sched_shutdown (start 2))) =
     Some (the (run sched_done (start 2))) \<and>
   3 + drain_measure (the (run sched_done (start 2))) \<le>
     drain_measure (the (run sched_shutdown (start 2))) \<and>
   workers (the (run sched_done (start 2))) = [WDone, WDone] \<and>
   (\<exists>ks s'. run (map AWorker ks) (the (run sched_shutdown (start 2))) = Some s' \<and>
        fault s' = None \<and> tasks s' = [] \<and>
        mset (executed s') = mset (submitted (the (run sched_shutdown (start 2)))))"
proof -
  have r: "reachable 2 (the (run sched_shutdown (start 2)))"
    by (rule reachable_run[of 2 sched_shutdown]) (simp_all add: run_sched_shutdown)
  note t = shutdown_wakes_and_drains[OF r]
  have c: "isClosed (the (run sched_shutdown (start 2)))"
    and w: "workers (the (run sched_shutdown (start 2))) = [WRun (Task 7 False), WDone]"
    and p: "\<forall>j. cpc (the (run sched_shutdown (start 2))) \<noteq> CDtorSet j \<and>
              cpc (the (run sched_shutdown (start 2))) \<noteq> CDtorNotify j"
    and f: "fault (the (run sched_shutdown (start 2))) = None"
    and nt: "\<forall>t \<in> set (submitted (the (run sched_shutdown (start 2)))). \<not> throws t"
    by (simp_all add: run_sched_shutdown)
  have rd: "run [AWorker 0, AWorker 0, AWorker 0] (the (run sched_shutdown (start 2))) =
     Some (the (run sched_done (start 2)))"
    by (simp add: run_sched_done run_sched_shutdown step_defs)
  have fd: "fault (the (run sched_done (start 2))) = None"
    and wd: "workers (the (run sched_done (start 2))) = [WDone, WDone]"
    by (simp_all add: run_sched_done)
  have 4: "WWait \<notin> set (workers (the (run sched_shutdown (start 2))))"
    using t[THEN conjunct2, THEN conjunct2, THEN conjunct2, THEN conjunct1] c p by blast
  have 7: "\<exists>ks s'. run (map AWorker ks) (the (run sched_shutdown (start 2))) = Some s' \<and>
        fault s' = None \<and> (\<forall>p \<in> set (workers s'). p = WDone) \<and> tasks s' = [] \<and>
        mset (executed s') = mset (submitted (the (run sched_shutdown (start 2))))"
    using t[THEN conjunct2, THEN conjunct2, THEN conjunct2, THEN conjunct2, THEN conjunct2,
        THEN conjunct2, THEN conjunct1] c p f nt by blast
  then have 8: "\<exists>ks s'. run (map AWorker ks) (the (run sched_shutdown (start 2))) = Some s' \<and>
        fault s' = None \<and> tasks s' = [] \<and>
        mset (executed s') = mset (submitted (the (run sched_shutdown (start 2))))"
    by blast
  have "length (filter worker_action [AWorker 0, AWorker 0, AWorker 0]) +
        drain_measure (the (run sched_done (start 2))) \<le>
        drain_measure (the (run sched_shutdown (start 2)))"
    using t[THEN conjunct2, THEN conjunct2, THEN conjunct2, THEN conjunct2, THEN conjunct2,
        THEN conjunct2, THEN conjunct2, THEN conjunct1] c p rd fd by blast
  then have 9: "3 + drain_measure (the (run sched_done (start 2))) \<le>
        drain_measure (the (run sched_shutdown (start 2)))"
    by simp
  show ?thesis using r c w 4 rd 9 wd 8 by (intro conjI)
qed

text \<open>
  Claim C6 as stated fails. In the first execution the pool is closed and every worker
  has been notified while worker 0 is inside a task that throws and a second task is
  queued: the only step of worker 0 ends the process, after which no thread moves, so
  worker 0 never leaves its loop. In the second execution a task is queued, the
  destructor runs before any worker has taken the mutex and \<^verbatim>\<open>main\<close> returns: the
  process ends with the task in the queue and both workers before their first
  statement.
\<close>

theorem shutdown_drain_cut_short_counterexample:
  "ThreadPool_ctor (Some 2) = Inr (start 2) \<and>
   run sched_throw_closed (start 2) =
     Some \<lparr> mtx = None, isClosed = True, tasks = [Task 2 False], refs = 2,
            freed = False, workers = [WRun (Task 1 True), WLock], cpc = CIdle,
            nthreads = 2, handles = [Gone], fault = None, ctor_failed = False,
            submitted = [Task 1 True, Task 2 False], dequeued = [Task 1 True],
            executed = [] \<rparr> \<and>
   step (AWorker 0) (the (run sched_throw_closed (start 2))) =
     Some ((the (run sched_throw_closed (start 2)))\<lparr> fault := Some Terminated \<rparr>) \<and>
   (\<forall>a. step a ((the (run sched_throw_closed (start 2)))\<lparr> fault := Some Terminated \<rparr>) = None) \<and>
   run sched_quit (start 2) =
     Some \<lparr> mtx = None, isClosed = True, tasks = [Task 7 False], refs = 2,
            freed = False, workers = [WLock, WLock], cpc = CIdle, nthreads = 2,
            handles = [Gone], fault = Some Exited, ctor_failed = False,
            submitted = [Task 7 False], dequeued = [], executed = [] \<rparr> \<and>
   (\<forall>a. step a (the (run sched_quit (start 2))) = None)"
proof -
  have 1: "ThreadPool_ctor (Some 2) = Inr (start 2)" by (simp add: ThreadPool_ctor_def)
  have 3: "step (AWorker 0) (the (run sched_throw_closed (start 2))) =
     Some ((the (run sched_throw_closed (start 2)))\<lparr> fault := Some Terminated \<rparr>)"
    by (simp add: run_sched_throw_closed step_def worker_step_def)
  have 4: "\<forall>a. step a ((the (run sched_throw_closed (start 2)))\<lparr> fault := Some Terminated \<rparr>) = None"
    by (simp add: step_def)
  have 6: "\<forall>a. step a (the (run sched_quit (start 2))) = None"
    by (simp add: run_sched_quit step_def)
  show ?thesis using 1 run_sched_throw_closed 3 4 run_sched_quit 6 by (intro conjI)
qed

section \<open>The queue and the executed tasks: claim C2\<close>






end
